theory Spec2Isabelle
  imports Main "HOL-Library.Sublist"
begin

section \<open>The tree of a directory: data model\<close>

text \<open>
  A node of the tree built by \<open>FS.tree\<close> is the object literal
  \<^verbatim>\<open>{ path, isDirectory }\<close>, to which \<open>FS.tree._resolveChildren\<close> adds the
  property \<open>children\<close> (an array of nodes) when the directory has entries.  An absent
  property is \<open>None\<close>.  In this section a \<open>Path\<close> object is represented by the string
  it holds (\<open>Path.clone\<close> makes a new object around the same string), and the type
  of nodes is \<open>node\<close>; the nodes whose paths are references to \<open>Path\<close> objects in a
  store are modelled further below, on the same datatype.
\<close>

datatype 'p tnode = Node (path: 'p) (isDirectory: bool) (children: "'p tnode list option")

type_synonym node = "string tnode"

text \<open>The entries of \<open>node.children\<close>; none when the property is absent.\<close>

fun kids :: "'p tnode \<Rightarrow> 'p tnode list" where
  "kids (Node p d None) = []"
| "kids (Node p d (Some ks)) = ks"

text \<open>All nodes of a graph: the node and everything reachable through \<open>children\<close>.\<close>

fun nodes :: "'p tnode \<Rightarrow> 'p tnode list" where
  "nodes (Node p d None) = [Node p d None]"
| "nodes (Node p d (Some ks)) = Node p d (Some ks) # concat (map nodes ks)"

text \<open>The number of nodes strictly below a node.\<close>

fun entries_below :: "'p tnode \<Rightarrow> nat" where
  "entries_below (Node p d None) = 0"
| "entries_below (Node p d (Some ks)) = sum_list (map (\<lambda>k. Suc (entries_below k)) ks)"

text \<open>
  The invariant of the data model: a node that is not a directory has no \<open>children\<close>
  property, at any depth.
\<close>

fun node_inv :: "'p tnode \<Rightarrow> bool" where
  "node_inv (Node p d None) = True"
| "node_inv (Node p d (Some ks)) = (d \<and> list_all node_inv ks)"

text \<open>What the resolver guarantees in addition: \<open>children\<close> is never an empty array.\<close>

fun resolved_inv :: "'p tnode \<Rightarrow> bool" where
  "resolved_inv (Node p d None) = True"
| "resolved_inv (Node p d (Some ks)) = (d \<and> ks \<noteq> [] \<and> list_all resolved_inv ks)"


section \<open>The tree queries\<close>

text \<open>
  \<open>FS.tree.flatten\<close>, \<open>FS.tree.files\<close> and \<open>FS.tree.directories\<close>.  Each starts from
  \<open>paths = []\<close>, pushes a clone of the node's path where the source does, and extends
  \<open>paths\<close> by \<open>paths.concat(...)\<close> of the recursive result for each child in index order.
  The guards are those of the source: \<open>!node.children\<close> is the absent property,
  \<open>!node.children.length\<close> the empty array.
\<close>

fun tree_flatten :: "node \<Rightarrow> string list" where
  "tree_flatten (Node p d cs) =
     (if \<not> d \<or> cs = None \<or> the cs = [] then [p]
      else [p] @ concat (map tree_flatten (the cs)))"

fun tree_files :: "node \<Rightarrow> string list" where
  "tree_files (Node p d cs) =
     (if \<not> d then [p]
      else if cs = None \<or> the cs = [] then []
      else concat (map tree_files (the cs)))"

fun tree_directories :: "node \<Rightarrow> string list" where
  "tree_directories (Node p d cs) =
     (if \<not> d \<or> cs = None \<or> the cs = [] then []
      else [p] @ concat (map tree_directories (the cs)))"


section \<open>The platform's path primitives\<close>

text \<open>
  \<open>Path\<close> delegates to the \<open>path\<close> module of Node.js (\<open>npath\<close> in the source).  The
  module is not part of the repository; it is modelled here in its POSIX variant
  (separator \<open>/\<close>), following its documented algorithm: a path is cut at every
  separator, empty and \<open>.\<close> segments are dropped, a \<open>..\<close> segment removes the segment
  before it (or is kept at the front of a relative path, or dropped at the root), and
  the remaining segments are put together with single separators.
\<close>

definition slash :: char where
  "slash = CHR ''/''"

definition backslash :: char where
  "backslash = CHR 0x5C"

text \<open>The segments of a string between separators; \<open>a//b/\<close> has the segments
  \<open>a\<close>, empty, \<open>b\<close>, empty.\<close>

fun split_sep :: "string \<Rightarrow> string list" where
  "split_sep [] = [[]]"
| "split_sep (c # cs) =
     (if c = slash then [] # split_sep cs
      else (c # hd (split_sep cs)) # tl (split_sep cs))"

fun join_sep :: "string list \<Rightarrow> string" where
  "join_sep [] = []"
| "join_sep [s] = s"
| "join_sep (s # t # ss) = s @ [slash] @ join_sep (t # ss)"

text \<open>One segment of \<open>normalizeString\<close>: \<open>res\<close> is the list of segments kept so far.\<close>

definition norm_step :: "bool \<Rightarrow> string list \<Rightarrow> string \<Rightarrow> string list" where
  "norm_step allowAboveRoot res seg =
     (if seg = [] \<or> seg = ''.'' then res
      else if seg = ''..'' then
        (if res \<noteq> [] \<and> last res \<noteq> ''..'' then butlast res
         else if allowAboveRoot then res @ [''..'']
         else res)
      else res @ [seg])"

definition normalizeString :: "string \<Rightarrow> bool \<Rightarrow> string" where
  "normalizeString p allowAboveRoot =
     join_sep (foldl (norm_step allowAboveRoot) [] (split_sep p))"

text \<open>\<open>path.normalize\<close>: the empty string is \<open>.\<close>; a leading and a trailing separator
  are kept.\<close>

definition npath_normalize :: "string \<Rightarrow> string" where
  "npath_normalize p =
     (if p = [] then ''.''
      else
        let isAbsolute = (hd p = slash);
            trailingSeparator = (last p = slash);
            r = normalizeString p (\<not> isAbsolute)
        in if r = [] then (if isAbsolute then ''/'' else if trailingSeparator then ''./'' else ''.'')
           else (if isAbsolute then ''/'' else []) @ r @ (if trailingSeparator then ''/'' else []))"

text \<open>\<open>path.join(...args)\<close>: zero-length arguments are skipped, the others are put
  together with separators and normalized; with nothing left the result is \<open>.\<close>.\<close>

definition npath_join :: "string list \<Rightarrow> string" where
  "npath_join args =
     (let parts = filter (\<lambda>a. a \<noteq> []) args
      in if parts = [] then ''.'' else npath_normalize (join_sep parts))"

text \<open>\<open>path.resolve(p)\<close> with one argument, \<open>cwd\<close> being \<open>process.cwd()\<close>: a relative
  \<open>p\<close> is put behind \<open>cwd\<close>; the result has no trailing separator unless it is the
  root.\<close>

definition npath_resolve :: "string \<Rightarrow> string \<Rightarrow> string" where
  "npath_resolve cwd p =
     (let (rp, ra) = (if p = [] then ([], False) else (p @ [slash], hd p = slash));
          (rp, ra) = (if ra \<or> cwd = [] then (rp, ra) else (cwd @ [slash] @ rp, hd cwd = slash));
          r = normalizeString rp (\<not> ra)
      in if ra then [slash] @ r else if r \<noteq> [] then r else ''.'')"

text \<open>\<open>path.basename(p)\<close>: trailing separators are ignored, and the result is what
  follows the last separator before them.\<close>

definition npath_basename :: "string \<Rightarrow> string" where
  "npath_basename p =
     rev (takeWhile (\<lambda>c. c \<noteq> slash) (dropWhile (\<lambda>c. c = slash) (rev p)))"


section \<open>The class Path\<close>

text \<open>
  A \<open>Path\<close> holds one string, \<open>_path\<close>.  The composition methods assign a new string to
  \<open>this._path\<close> and return \<open>this\<close>; each is modelled by the function from the old
  string (first argument) to the new one.  An argument that is a \<open>Path\<close> is read through
  its \<open>path\<close> getter, so the arguments are strings as well.
\<close>

definition Path_prefix :: "string \<Rightarrow> string \<Rightarrow> string" where
  "Path_prefix this pre = npath_join [pre, this]"

definition Path_postfix :: "string \<Rightarrow> string \<Rightarrow> string" where
  "Path_postfix this post = npath_join [this, post]"

definition Path_append :: "string \<Rightarrow> string list \<Rightarrow> string" where
  "Path_append this paths = npath_join (this # paths)"

definition Path_prepend :: "string \<Rightarrow> string list \<Rightarrow> string" where
  "Path_prepend this paths = npath_join (paths @ [this])"

definition Path_absolute :: "string \<Rightarrow> string \<Rightarrow> string" where
  "Path_absolute cwd this = npath_resolve cwd this"

definition Path_basename :: "string \<Rightarrow> string" where
  "Path_basename this = npath_basename this"

text \<open>\<open>inside\<close>: \<open>tAbs.startsWith(iAbs + '/')\<close> or the same with a backslash.\<close>

definition Path_inside :: "string \<Rightarrow> string \<Rightarrow> string \<Rightarrow> bool" where
  "Path_inside cwd this other =
     (let iAbs = Path_absolute cwd other;
          tAbs = Path_absolute cwd this
      in prefix (iAbs @ [slash]) tAbs \<or> prefix (iAbs @ [backslash]) tAbs)"

definition Path_is :: "string \<Rightarrow> string \<Rightarrow> string \<Rightarrow> bool" where
  "Path_is cwd this other = (Path_absolute cwd this = Path_absolute cwd other)"


section \<open>Storage and the promises of the resolver\<close>

text \<open>
  The errors thrown by the code: \<open>FS.stat\<close> throws its own error, naming the absolute
  path, when the path is not accessible, and \<open>FS.ls\<close> throws its own error on a path
  that is not a directory; a rejection of \<open>nfs.stat\<close> or \<open>nfs.readdir\<close> itself is an
  \<open>IOError\<close>; \<open>SyntaxError\<close> is the error of \<open>new RegExp\<close> on an ill-formed pattern.
\<close>

datatype error = NotAccessible string | NotADirectory string | IOError string | SyntaxError

datatype stats = Stats (stat_isDirectory: bool) (stat_isFile: bool)

text \<open>
  What the code reads of its environment: \<open>process.cwd()\<close> and the answers of
  \<open>nfs.access\<close> (does it resolve?), \<open>nfs.stat\<close> and \<open>nfs.readdir\<close> for each absolute
  path.  One resolution is modelled against one state of the file system.
\<close>

record world =
  process_cwd :: string
  nfs_access :: "string \<Rightarrow> bool"
  nfs_stat :: "string \<Rightarrow> error + stats"
  nfs_readdir :: "string \<Rightarrow> error + string list"

definition FS_isAccessible :: "world \<Rightarrow> string \<Rightarrow> bool" where
  "FS_isAccessible w p = nfs_access w (Path_absolute (process_cwd w) p)"

definition FS_stat :: "world \<Rightarrow> string \<Rightarrow> error + stats" where
  "FS_stat w p =
     (let abs = Path_absolute (process_cwd w) p
      in if \<not> FS_isAccessible w abs then Inl (NotAccessible abs)
         else nfs_stat w abs)"

text \<open>\<open>FS.ls\<close>: each name of the listing becomes a new \<open>Path\<close>, to which the path of the
  directory is prepended.\<close>

definition FS_ls :: "world \<Rightarrow> string \<Rightarrow> error + string list" where
  "FS_ls w p =
     (case FS_stat w p of
        Inl e \<Rightarrow> Inl e
      | Inr st \<Rightarrow>
          if \<not> stat_isDirectory st then Inl (NotADirectory (Path_absolute (process_cwd w) p))
          else (case nfs_readdir w (Path_absolute (process_cwd w) p) of
                  Inl e \<Rightarrow> Inl e
                | Inr subpaths \<Rightarrow> Inr (map (\<lambda>s. Path_prepend s [p]) subpaths)))"

text \<open>
  A promise is \<open>Some (Inr v)\<close> when it fulfils with \<open>v\<close>, \<open>Some (Inl e)\<close> when it rejects
  with \<open>e\<close>, and \<open>None\<close> when it has not settled.  \<open>Promise.all\<close> rejects as soon as one
  of its promises rejects, whatever the others do; where several reject, the model
  takes the first in index order for the first in time.  With no rejection it
  fulfils, with the values in index order, once every promise has fulfilled.
\<close>

fun first_rejection :: "('e + 'a) option list \<Rightarrow> 'e option" where
  "first_rejection [] = None"
| "first_rejection (Some (Inl e) # ps) = Some e"
| "first_rejection (_ # ps) = first_rejection ps"

fun all_values :: "('e + 'a) option list \<Rightarrow> 'a list option" where
  "all_values [] = Some []"
| "all_values (Some (Inr v) # ps) = map_option ((#) v) (all_values ps)"
| "all_values (_ # ps) = None"

definition Promise_all :: "('e + 'a) option list \<Rightarrow> ('e + 'a list) option" where
  "Promise_all ps =
     (case first_rejection ps of
        Some e \<Rightarrow> Some (Inl e)
      | None \<Rightarrow> map_option Inr (all_values ps))"


section \<open>The resolver\<close>

text \<open>
  One call of \<open>FS.tree._resolveChildren\<close>, with the promise of each recursive call
  given by \<open>recurse\<close>.  A node that is not a directory, and a directory with an empty
  listing, are left as they are.  Otherwise every child is stat'ed, a node is made for
  each child from its stat, the recursive calls are awaited together, and only then is
  \<open>node.children\<close> assigned.  The test before the recursive call reads the
  \<open>isDirectory\<close> of the parent, as the source does.
\<close>

definition resolve_level ::
  "world \<Rightarrow> (node \<Rightarrow> (error + node) option) \<Rightarrow> node \<Rightarrow> (error + node) option" where
  "resolve_level w recurse node =
     (if \<not> isDirectory node then Some (Inr node)
      else
        case FS_ls w (path node) of
          Inl e \<Rightarrow> Some (Inl e)
        | Inr childPaths \<Rightarrow>
            if childPaths = [] then Some (Inr node)
            else
              (case Promise_all (map (\<lambda>child. Some (FS_stat w child)) childPaths) of
                 None \<Rightarrow> None
               | Some (Inl e) \<Rightarrow> Some (Inl e)
               | Some (Inr childrenStats) \<Rightarrow>
                   let childNodes =
                         map2 (\<lambda>child st. Node child (stat_isDirectory st) None)
                           childPaths childrenStats;
                       recursePromises =
                         (if isDirectory node then map recurse childNodes
                          else map (\<lambda>n. Some (Inr n)) childNodes)
                   in (case Promise_all recursePromises of
                         None \<Rightarrow> None
                       | Some (Inl e) \<Rightarrow> Some (Inl e)
                       | Some (Inr resolved) \<Rightarrow>
                           Some (Inr (Node (path node) (isDirectory node) (Some resolved))))))"

text \<open>
  The recursion of the source is not bounded; \<open>fuel\<close> is the depth of recursive calls
  that have returned so far, and a call below that depth is a promise that has not
  settled.
\<close>

fun tree_resolveChildren :: "nat \<Rightarrow> world \<Rightarrow> node \<Rightarrow> (error + node) option" where
  "tree_resolveChildren 0 w node = resolve_level w (\<lambda>n. None) node"
| "tree_resolveChildren (Suc fuel) w node = resolve_level w (tree_resolveChildren fuel w) node"

text \<open>\<open>FS.tree\<close>: the stat of the root, then the resolution of its children; the node is
  returned when that has finished.\<close>

definition FS_tree :: "nat \<Rightarrow> world \<Rightarrow> string \<Rightarrow> (error + node) option" where
  "FS_tree fuel w p =
     (case FS_stat w p of
        Inl e \<Rightarrow> Some (Inl e)
      | Inr st \<Rightarrow> tree_resolveChildren fuel w (Node p (stat_isDirectory st) None))"


section \<open>Regular expressions of the platform\<close>

text \<open>
  \<open>Path.pop\<close> and \<open>Path.relativeTo\<close> build a \<open>RegExp\<close> from a string that contains a
  path, and call \<open>String.prototype.replace\<close> with it.  Both belong to the platform;
  the model covers the patterns that are sequences of single-character atoms (a
  character, an escaped syntax character, the dot, a character class that lists its
  members), each optionally followed by the quantifier \<open>{0,1}\<close>, and the assertion
  \<open>$\<close>.  For every other pattern the model gives no answer (\<open>None\<close>), except where the
  pattern is ill-formed whatever the rest is: an opening parenthesis with no closing
  parenthesis after it, a closing parenthesis with no opening one, a character class
  that is not closed, a backslash at the end.
\<close>

datatype atom = Lit char | AnyChar | OneOf "char list"

datatype item = Single atom | Optional atom | AtEnd

type_synonym regex = "item list"

datatype 'a parsed = Parsed 'a | Invalid | Unmodelled

definition syntax_chars :: "char list" where
  "syntax_chars = ''^$.*+?()[]{}|'' @ [backslash]"

text \<open>The members of a character class, read after its opening bracket, and the rest
  of the pattern after its closing bracket.\<close>

fun parse_class :: "string \<Rightarrow> (char list \<times> string) parsed" where
  "parse_class [] = Invalid"
| "parse_class (c # rest) =
     (if c = CHR '']'' then Parsed ([], rest)
      else if c = backslash then
        (case rest of
           [] \<Rightarrow> Invalid
         | d # rest' \<Rightarrow>
             if d \<in> set syntax_chars \<or> d = slash then
               (case parse_class rest' of
                  Parsed (ms, r) \<Rightarrow> Parsed (d # ms, r)
                | Invalid \<Rightarrow> Invalid
                | Unmodelled \<Rightarrow> Unmodelled)
             else Unmodelled)
      else if c = CHR ''^'' \<or> c = CHR ''-'' then Unmodelled
      else
        (case parse_class rest of
           Parsed (ms, r) \<Rightarrow> Parsed (c # ms, r)
         | Invalid \<Rightarrow> Invalid
         | Unmodelled \<Rightarrow> Unmodelled))"

text \<open>The atom at the front of a pattern and the rest of the pattern.\<close>

definition parse_atom :: "string \<Rightarrow> (atom \<times> string) parsed" where
  "parse_atom s =
     (case s of
        [] \<Rightarrow> Unmodelled
      | c # rest \<Rightarrow>
          if c = backslash then
            (case rest of
               [] \<Rightarrow> Invalid
             | d # rest' \<Rightarrow>
                 if d \<in> set syntax_chars \<or> d = slash then Parsed (Lit d, rest') else Unmodelled)
          else if c = CHR ''['' then
            (case parse_class rest of
               Parsed (ms, r) \<Rightarrow> Parsed (OneOf ms, r)
             | Invalid \<Rightarrow> Invalid
             | Unmodelled \<Rightarrow> Unmodelled)
          else if c = CHR ''.'' then Parsed (AnyChar, rest)
          else if c = CHR ''('' then (if CHR '')'' \<in> set rest then Unmodelled else Invalid)
          else if c = CHR '')'' then Invalid
          else if c \<in> set syntax_chars then Unmodelled
          else Parsed (Lit c, rest))"

text \<open>The quantifier that follows an atom, if any.\<close>

definition parse_quantifier :: "atom \<Rightarrow> string \<Rightarrow> (item \<times> string) parsed" where
  "parse_quantifier a s =
     (if prefix ''{0,1}'' s then Parsed (Optional a, drop 5 s)
      else if s \<noteq> [] \<and> hd s \<in> set ''*+?{'' then Unmodelled
      else Parsed (Single a, s))"

definition parse_item :: "string \<Rightarrow> (item \<times> string) parsed" where
  "parse_item s =
     (if s \<noteq> [] \<and> hd s = CHR ''$'' then
        (if tl s \<noteq> [] \<and> hd (tl s) \<in> set ''*+?{'' then Unmodelled else Parsed (AtEnd, tl s))
      else
        (case parse_atom s of
           Parsed (a, rest) \<Rightarrow> parse_quantifier a rest
         | Invalid \<Rightarrow> Invalid
         | Unmodelled \<Rightarrow> Unmodelled))"

function parse_items :: "string \<Rightarrow> regex parsed" where
  "parse_items s =
     (if s = [] then Parsed []
      else
        (case parse_item s of
           Parsed (it, rest) \<Rightarrow>
             (if length rest < length s then
                (case parse_items rest of
                   Parsed its \<Rightarrow> Parsed (it # its)
                 | Invalid \<Rightarrow> Invalid
                 | Unmodelled \<Rightarrow> Unmodelled)
              else Unmodelled)
         | Invalid \<Rightarrow> Invalid
         | Unmodelled \<Rightarrow> Unmodelled))"
  by pat_completeness auto
termination
  by (relation "measure length") auto

text \<open>\<open>new RegExp(source)\<close>: the regular expression, or the \<open>SyntaxError\<close> thrown, or
  \<open>None\<close> for a pattern outside the model.\<close>

definition RegExp_new :: "string \<Rightarrow> (error + regex) option" where
  "RegExp_new source =
     (case parse_items source of
        Parsed r \<Rightarrow> Some (Inr r)
      | Invalid \<Rightarrow> Some (Inl SyntaxError)
      | Unmodelled \<Rightarrow> None)"

text \<open>Matching.  Without the flag \<open>s\<close> the dot matches every character but a line
  terminator; \<open>$\<close> matches at the end of the input only.\<close>

fun atom_matches :: "atom \<Rightarrow> char \<Rightarrow> bool" where
  "atom_matches (Lit c) x = (x = c)"
| "atom_matches AnyChar x = (x \<noteq> CHR 0x0A \<and> x \<noteq> CHR 0x0D)"
| "atom_matches (OneOf ms) x = (x \<in> set ms)"

text \<open>The match of a regular expression at the front of a string, by backtracking with
  greedy quantifiers: what is left of the string after the match.\<close>

fun match_here :: "regex \<Rightarrow> string \<Rightarrow> string option" where
  "match_here [] s = Some s"
| "match_here (Single a # r) s =
     (case s of
        [] \<Rightarrow> None
      | x # xs \<Rightarrow> if atom_matches a x then match_here r xs else None)"
| "match_here (Optional a # r) s =
     (case s of
        [] \<Rightarrow> match_here r s
      | x # xs \<Rightarrow>
          if atom_matches a x then
            (case match_here r xs of Some rest \<Rightarrow> Some rest | None \<Rightarrow> match_here r s)
          else match_here r s)"
| "match_here (AtEnd # r) s = (if s = [] then match_here r s else None)"

text \<open>\<open>s.replace(r, replacement)\<close> for a regular expression without the flag \<open>g\<close> and
  a replacement without \<open>$\<close>: the leftmost match is replaced; without a match the
  string is returned as it is.\<close>

fun String_replace :: "string \<Rightarrow> regex \<Rightarrow> string \<Rightarrow> string" where
  "String_replace s r replacement =
     (case match_here r s of
        Some rest \<Rightarrow> replacement @ rest
      | None \<Rightarrow> (case s of [] \<Rightarrow> [] | x # xs \<Rightarrow> x # String_replace xs r replacement))"

text \<open>
  \<open>Path.pop\<close>: the pattern is the class of the two separators with the quantifier
  \<open>{0,1}\<close>, then the base name, then \<open>$\<close>; the match is replaced by the empty string.
  \<open>Path.relativeTo\<close>: the pattern is the absolute form of the argument, then the class
  of the two separators; the match in the absolute form of \<open>this\<close> is replaced by the
  empty string and the result is wrapped in a new \<open>Path\<close>.  An error thrown by
  \<open>new RegExp\<close> leaves \<open>this\<close> as it is and is thrown by the method.
\<close>

definition separator_class :: string where
  "separator_class = ''[/'' @ [backslash, backslash] @ '']''"

definition Path_pop :: "string \<Rightarrow> (error + string) option" where
  "Path_pop this =
     (case RegExp_new (separator_class @ ''{0,1}'' @ Path_basename this @ ''$'') of
        None \<Rightarrow> None
      | Some (Inl e) \<Rightarrow> Some (Inl e)
      | Some (Inr r) \<Rightarrow> Some (Inr (String_replace this r [])))"

definition Path_relativeTo :: "string \<Rightarrow> string \<Rightarrow> string \<Rightarrow> (error + string) option" where
  "Path_relativeTo cwd this other =
     (let iAbs = Path_absolute cwd other;
          tAbs = Path_absolute cwd this
      in case RegExp_new (iAbs @ separator_class) of
           None \<Rightarrow> None
         | Some (Inl e) \<Rightarrow> Some (Inl e)
         | Some (Inr r) \<Rightarrow> Some (Inr (String_replace tAbs r [])))"


section \<open>Path objects in a store\<close>

text \<open>
  A \<open>Path\<close> is an object: two variables may hold the same \<open>Path\<close>, and the composition
  methods assign to its field \<open>_path\<close>.  The store maps the reference of each \<open>Path\<close>
  object to the string in its \<open>_path\<close>; the references below \<open>allocated\<close> are those of
  the objects made so far, and \<open>new Path(s)\<close> takes the next one.
\<close>

record store =
  content :: "nat \<Rightarrow> string"
  allocated :: nat

definition Path_new :: "string \<Rightarrow> store \<Rightarrow> nat \<times> store" where
  "Path_new s h =
     (allocated h, h\<lparr>content := (content h)(allocated h := s), allocated := Suc (allocated h)\<rparr>)"

text \<open>\<open>clone()\<close> is \<open>Path.from(this.path)\<close>; \<open>this.path\<close> is a string, so a new object
  is made.\<close>

definition Path_clone :: "nat \<Rightarrow> store \<Rightarrow> nat \<times> store" where
  "Path_clone this h = Path_new (content h this) h"

text \<open>An argument of a method is a string or a \<open>Path\<close>.  \<open>Path.from\<close> returns a \<open>Path\<close>
  argument itself and makes a new object for a string.\<close>

datatype arg = Str string | PathRef nat

fun Path_from :: "arg \<Rightarrow> store \<Rightarrow> nat \<times> store" where
  "Path_from (PathRef r) h = (r, h)"
| "Path_from (Str s) h = Path_new s h"

text \<open>What \<open>append\<close> and \<open>prepend\<close> pass to \<open>npath.join\<close> for an argument: \<open>path.path\<close>
  for a \<open>Path\<close>, the argument itself otherwise.\<close>

fun arg_path :: "store \<Rightarrow> arg \<Rightarrow> string" where
  "arg_path h (PathRef r) = content h r"
| "arg_path h (Str s) = s"

definition set_path :: "nat \<Rightarrow> string \<Rightarrow> store \<Rightarrow> store" where
  "set_path this s h = h\<lparr>content := (content h)(this := s)\<rparr>"

text \<open>
  The in-place composition methods, on the object \<open>this\<close>.  The result is the store
  after the call; it is the store before the call when the method throws, and \<open>None\<close>
  when \<open>pop\<close> builds a pattern outside the model of regular expressions.  \<open>replace\<close>
  is modelled for a matcher that is a regular expression of the model and a
  replacement string without \<open>$\<close>.
\<close>

datatype pathop =
    Prefix arg | Postfix arg | Append "arg list" | Prepend "arg list" | Pop
  | Replace regex string

fun apply_op :: "pathop \<Rightarrow> nat \<Rightarrow> store \<Rightarrow> store option" where
  "apply_op (Prefix a) this h =
     (let (pre, h1) = Path_from a h
      in Some (set_path this (Path_prefix (content h1 this) (content h1 pre)) h1))"
| "apply_op (Postfix a) this h =
     (let (post, h1) = Path_from a h
      in Some (set_path this (Path_postfix (content h1 this) (content h1 post)) h1))"
| "apply_op (Append as) this h =
     Some (set_path this (Path_append (content h this) (map (arg_path h) as)) h)"
| "apply_op (Prepend as) this h =
     Some (set_path this (Path_prepend (content h this) (map (arg_path h) as)) h)"
| "apply_op Pop this h =
     (case Path_pop (content h this) of
        None \<Rightarrow> None
      | Some (Inl e) \<Rightarrow> Some h
      | Some (Inr s) \<Rightarrow> Some (set_path this s h))"
| "apply_op (Replace matcher replacement) this h =
     Some (set_path this (String_replace (content h this) matcher replacement) h)"

text \<open>A sequence of calls, each on one object.\<close>

fun apply_ops :: "(pathop \<times> nat) list \<Rightarrow> store \<Rightarrow> store option" where
  "apply_ops [] h = Some h"
| "apply_ops ((op, this) # rest) h =
     (case apply_op op this h of None \<Rightarrow> None | Some h1 \<Rightarrow> apply_ops rest h1)"

text \<open>
  The tree queries on nodes whose \<open>path\<close> is a reference: each \<open>node.path.clone()\<close> makes
  a new object, and the results are the references of the clones.
\<close>

type_synonym pnode = "nat tnode"

fun tree_flatten_st :: "pnode \<Rightarrow> store \<Rightarrow> nat list \<times> store" where
  "tree_flatten_st (Node p d cs) h =
     (let (r, h1) = Path_clone p h
      in if \<not> d \<or> cs = None \<or> the cs = [] then ([r], h1)
         else foldl (\<lambda>acc childNode.
                    let res = tree_flatten_st childNode (snd acc) in (fst acc @ fst res, snd res))
                ([r], h1) (the cs))"

fun tree_files_st :: "pnode \<Rightarrow> store \<Rightarrow> nat list \<times> store" where
  "tree_files_st (Node p d cs) h =
     (if \<not> d then (let (r, h1) = Path_clone p h in ([r], h1))
      else if cs = None \<or> the cs = [] then ([], h)
      else foldl (\<lambda>acc childNode.
                    let res = tree_files_st childNode (snd acc) in (fst acc @ fst res, snd res))
             ([], h) (the cs))"

fun tree_directories_st :: "pnode \<Rightarrow> store \<Rightarrow> nat list \<times> store" where
  "tree_directories_st (Node p d cs) h =
     (if \<not> d \<or> cs = None \<or> the cs = [] then ([], h)
      else
        let (r, h1) = Path_clone p h
        in foldl (\<lambda>acc childNode.
                    let res = tree_directories_st childNode (snd acc) in (fst acc @ fst res, snd res))
             ([r], h1) (the cs))"


section \<open>Predicates and examples used in the statements\<close>

text \<open>
  A node reflects the world when its \<open>isDirectory\<close> is the answer of \<open>FS.stat\<close> for its
  path and, for a directory, the paths of its \<open>children\<close> are exactly the listing of
  \<open>FS.ls\<close>, in that order, each child reflecting the world in turn.
\<close>

fun reflects :: "world \<Rightarrow> node \<Rightarrow> bool" where
  "reflects w (Node p d cs) =
     ((case FS_stat w p of Inl e \<Rightarrow> False | Inr st \<Rightarrow> stat_isDirectory st = d) \<and>
      (if d then
         FS_ls w p = Inr (map path (case cs of None \<Rightarrow> [] | Some ks \<Rightarrow> ks)) \<and>
         (case cs of None \<Rightarrow> True | Some ks \<Rightarrow> list_all (reflects w) ks)
       else cs = None))"

text \<open>
  A Storage operation fails during the resolution of \<open>p\<close>: the stat of \<open>p\<close> fails, or
  \<open>p\<close> is a directory whose listing fails, or an operation fails during the resolution
  of an entry of that listing.  The error is that of the failing operation.
\<close>

inductive resolution_fails :: "world \<Rightarrow> string \<Rightarrow> error \<Rightarrow> bool" where
  stat_fails: "FS_stat w p = Inl e \<Longrightarrow> resolution_fails w p e"
| ls_fails: "FS_stat w p = Inr st \<Longrightarrow> stat_isDirectory st \<Longrightarrow> FS_ls w p = Inl e
     \<Longrightarrow> resolution_fails w p e"
| child_fails: "FS_stat w p = Inr st \<Longrightarrow> stat_isDirectory st \<Longrightarrow> FS_ls w p = Inr cs
     \<Longrightarrow> c \<in> set cs \<Longrightarrow> resolution_fails w c e \<Longrightarrow> resolution_fails w p e"

text \<open>
  The scenario of the specification: the directory \<open>/a\<close> holds the file \<open>x.txt\<close> and
  the empty directory \<open>y\<close>, listed in that order.  In the broken variant \<open>/a/y\<close> is not
  accessible.
\<close>

definition scenario_world :: world where
  "scenario_world =
     \<lparr> process_cwd = ''/home'',
       nfs_access = (\<lambda>p. p = ''/a'' \<or> p = ''/a/x.txt'' \<or> p = ''/a/y''),
       nfs_stat = (\<lambda>p. if p = ''/a'' \<or> p = ''/a/y'' then Inr (Stats True False)
                        else if p = ''/a/x.txt'' then Inr (Stats False True)
                        else Inl (IOError ''ENOENT'')),
       nfs_readdir = (\<lambda>p. if p = ''/a'' then Inr [''x.txt'', ''y'']
                           else if p = ''/a/y'' then Inr []
                           else Inl (IOError ''ENOTDIR'')) \<rparr>"

definition broken_world :: world where
  "broken_world = scenario_world \<lparr> nfs_access := (\<lambda>p. p = ''/a'' \<or> p = ''/a/x.txt'') \<rparr>"

definition scenario_tree :: node where
  "scenario_tree =
     Node ''/a'' True (Some [Node ''/a/x.txt'' False None, Node ''/a/y'' True None])"

text \<open>What a fulfilled resolution of the node for path \<open>p\<close> with stat answer \<open>d\<close> delivers.\<close>

definition good :: "world \<Rightarrow> node \<Rightarrow> string \<Rightarrow> bool \<Rightarrow> bool" where
  "good w t p d \<longleftrightarrow> path t = p \<and> isDirectory t = d \<and> resolved_inv t \<and> reflects w t"


text \<open>
  The \<open>Path\<close> objects of a graph are in the store.  A query on the store refines the
  query on strings when the references it returns are those of the objects it has
  made, in order, holding the strings of the query on strings, and the objects that
  were in the store before hold what they held.
\<close>


definition refines ::
  "(pnode \<Rightarrow> store \<Rightarrow> nat list \<times> store) \<Rightarrow> (node \<Rightarrow> string list) \<Rightarrow> pnode \<Rightarrow> store \<Rightarrow> bool" where
  "refines query_st query n h =
     (let (rs, h1) = query_st n h
      in rs = [allocated h ..< allocated h1] \<and> allocated h \<le> allocated h1 \<and>
         map (content h1) rs = query (map_tnode (content h) n) \<and>
         (\<forall>r < allocated h. content h1 r = content h r))"

definition in_store :: "pnode \<Rightarrow> store \<Rightarrow> bool" where
  "in_store n h = (\<forall>r \<in> set_tnode n. r < allocated h)"

text \<open>A store with the two \<open>Path\<close> objects of a small graph, and two calls on
  clones.\<close>


definition example_store :: store where
  "example_store =
     \<lparr> content = (\<lambda>r. if r = 0 then ''/a'' else if r = 1 then ''/a/x.txt'' else []),
       allocated = 2 \<rparr>"

definition example_pnode :: pnode where
  "example_pnode = Node 0 True (Some [Node 1 False None])"

definition example_ops :: "(pathop \<times> nat) list" where
  "example_ops = [(Append [Str ''z''], 2), (Pop, 3)]"


section \<open>Predicates on paths and listings\<close>

text \<open>
  The string that \<open>path.normalize\<close> builds from the segments it keeps, and those
  segments for a path.  A segment is plain when it is not empty, not \<open>.\<close> and holds no
  separator.
\<close>


definition render :: "bool \<Rightarrow> bool \<Rightarrow> string list \<Rightarrow> string" where
  "render isAbsolute trailingSeparator res =
     (if res = [] then (if isAbsolute then ''/'' else if trailingSeparator then ''./'' else ''.'')
      else (if isAbsolute then ''/'' else []) @ join_sep res @ (if trailingSeparator then ''/'' else []))"

definition plain :: "string \<Rightarrow> bool" where
  "plain s \<longleftrightarrow> s \<noteq> [] \<and> s \<noteq> ''.'' \<and> slash \<notin> set s"

definition kept_segments :: "string \<Rightarrow> string list" where
  "kept_segments p =
     (if p = [] then [] else foldl (norm_step (hd p \<noteq> slash)) [] (split_sep p))"

text \<open>
  The names a directory listing can hold: not empty, not \<open>.\<close> or \<open>..\<close>, without a
  separator.  The listings of a world are valid when every listing consists of such
  names, each once.
\<close>

definition entry_name :: "string \<Rightarrow> bool" where
  "entry_name n \<longleftrightarrow> n \<noteq> [] \<and> n \<noteq> ''.'' \<and> n \<noteq> ''..'' \<and> slash \<notin> set n"

definition listings_valid :: "world \<Rightarrow> bool" where
  "listings_valid w \<longleftrightarrow>
     (\<forall>p names. nfs_readdir w p = Inr names \<longrightarrow> distinct names \<and> list_all entry_name names)"


section \<open>Properties of the tree queries\<close>

lemma kids_simps2: "kids n = (case children n of None \<Rightarrow> [] | Some ks \<Rightarrow> ks)"
  by (cases n rule: kids.cases) simp_all

lemma flatten_unfold:
  "node_inv n \<Longrightarrow> tree_flatten n = path n # concat (map tree_flatten (kids n))"
  by (cases n rule: kids.cases) auto


lemma sum_list_Suc: "sum_list (map (\<lambda>k. Suc (f k)) ks) = length ks + sum_list (map f ks)"
  by (induction ks) auto

lemma flatten_count:
  "node_inv n \<Longrightarrow> length (tree_flatten n) = Suc (entries_below n)"
proof (induction n rule: tree_flatten.induct)
  case (1 p d cs)
  show ?case
  proof (cases cs)
    case None
    then show ?thesis by simp
  next
    case (Some ks)
    with "1.prems" have d: d and inv: "list_all node_inv ks" by simp_all
    have "\<And>k. k \<in> set ks \<Longrightarrow> length (tree_flatten k) = Suc (entries_below k)"
      using "1.IH" Some d inv by (cases "ks = []") (auto simp: list_all_iff)
    then have "map (\<lambda>k. length (tree_flatten k)) ks = map (\<lambda>k. Suc (entries_below k)) ks"
      by simp
    then have "sum_list (map (\<lambda>k. length (tree_flatten k)) ks) = sum_list (map (\<lambda>k. Suc (entries_below k)) ks)"
      by (rule arg_cong)
    then show ?thesis using Some d
      by (simp add: length_concat comp_def)
  qed
qed

lemma directories_sound:
  "p \<in> set (tree_directories n) \<Longrightarrow> \<exists>m \<in> set (nodes n). path m = p \<and> isDirectory m \<and> kids m \<noteq> []"
proof (induction n arbitrary: p rule: tree_directories.induct)
  case (1 q d cs)
  show ?case
  proof (cases cs)
    case None
    with "1.prems" show ?thesis by simp
  next
    case (Some ks)
    show ?thesis
    proof (cases "\<not> d \<or> ks = []")
      case True
      with "1.prems" Some show ?thesis by auto
    next
      case False
      with "1.prems" Some have "p = q \<or> (\<exists>k \<in> set ks. p \<in> set (tree_directories k))"
        by auto
      then show ?thesis
      proof
        assume "p = q"
        with False Some show ?thesis by auto
      next
        assume "\<exists>k \<in> set ks. p \<in> set (tree_directories k)"
        then obtain k where k: "k \<in> set ks" "p \<in> set (tree_directories k)" by blast
        with "1.IH"[of k p] False Some
        obtain m where "m \<in> set (nodes k)" "path m = p \<and> isDirectory m \<and> kids m \<noteq> []"
          by auto
        with k Some show ?thesis by auto
      qed
    qed
  qed
qed

lemma files_sound:
  "node_inv n \<Longrightarrow> p \<in> set (tree_files n) \<Longrightarrow> \<exists>m \<in> set (nodes n). path m = p \<and> \<not> isDirectory m \<and> children m = None"
proof (induction n arbitrary: p rule: tree_files.induct)
  case (1 q d cs)
  show ?case
  proof (cases cs)
    case None
    with "1.prems" show ?thesis by (auto split: if_splits)
  next
    case (Some ks)
    with "1.prems" have d: d and inv: "list_all node_inv ks" by simp_all
    from "1.prems" Some d obtain k where k: "k \<in> set ks" "p \<in> set (tree_files k)" "ks \<noteq> []"
      by (auto split: if_splits)
    with "1.IH"[of k p] Some d inv
    obtain m where "m \<in> set (nodes k)" "path m = p \<and> \<not> isDirectory m \<and> children m = None"
      by (auto simp: list_all_iff)
    with k Some show ?thesis by auto
  qed
qed


section \<open>Properties of the path primitives\<close>

lemma split_sep_nonempty [simp]: "split_sep x \<noteq> []"
  by (cases x) auto

lemma split_sep_append: "split_sep (x @ slash # y) = split_sep x @ split_sep y"
  by (induction x) auto

lemma split_sep_no_slash: "s \<in> set (split_sep x) \<Longrightarrow> slash \<notin> set s"
proof (induction x arbitrary: s)
  case Nil
  then show ?case by simp
next
  case (Cons c x)
  show ?case
  proof (cases "c = slash")
    case True
    with Cons show ?thesis by auto
  next
    case False
    from Cons.prems False have "s = c # hd (split_sep x) \<or> s \<in> set (tl (split_sep x))" by simp
    then show ?thesis
    proof
      assume "s = c # hd (split_sep x)"
      moreover have "hd (split_sep x) \<in> set (split_sep x)" by simp
      ultimately show ?thesis using Cons.IH False by auto
    next
      assume "s \<in> set (tl (split_sep x))"
      then have "s \<in> set (split_sep x)" by (rule list.set_sel(2) [rotated]) simp
      then show ?thesis by (rule Cons.IH)
    qed
  qed
qed

lemma split_sep_plain: "slash \<notin> set s \<Longrightarrow> split_sep s = [s]"
  by (induction s) auto

lemma split_join:
  "R \<noteq> [] \<Longrightarrow> \<forall>s \<in> set R. slash \<notin> set s \<Longrightarrow> split_sep (join_sep R) = R"
proof (induction R rule: join_sep.induct)
  case 1
  then show ?case by simp
next
  case (2 s)
  then show ?case by (simp add: split_sep_plain)
next
  case (3 s t ss)
  then have "split_sep (join_sep (t # ss)) = t # ss" by simp
  with 3 show ?case by (simp add: split_sep_append split_sep_plain)
qed

lemma norm_step_noop [simp]:
  "norm_step abv S [] = S" "norm_step abv S ''.'' = S"
  by (simp_all add: norm_step_def)

lemma norm_step_name:
  "s \<noteq> [] \<Longrightarrow> s \<noteq> ''.'' \<Longrightarrow> s \<noteq> ''..'' \<Longrightarrow> norm_step abv S s = S @ [s]"
  by (simp add: norm_step_def)

lemma norm_step_plain:
  assumes "list_all plain S" and "slash \<notin> set s"
  shows "list_all plain (norm_step abv S s)"
proof -
  have "norm_step abv S s = S \<or> norm_step abv S s = butlast S \<or>
      norm_step abv S s = S @ [''..''] \<or>
      (norm_step abv S s = S @ [s] \<and> s \<noteq> [] \<and> s \<noteq> ''.'')"
    by (simp add: norm_step_def)
  moreover have "plain ''..''" by (simp add: plain_def slash_def)
  moreover have "list_all plain (butlast S)"
    using assms(1) by (auto simp: list_all_iff dest: in_set_butlastD)
  moreover have "s \<noteq> [] \<and> s \<noteq> ''.'' \<longrightarrow> plain s"
    using assms(2) by (simp add: plain_def)
  ultimately show ?thesis using assms(1) by auto
qed

lemma foldl_plain:
  "list_all plain S \<Longrightarrow> \<forall>s \<in> set xs. slash \<notin> set s \<Longrightarrow>
   list_all plain (foldl (norm_step abv) S xs)"
  by (induction xs arbitrary: S) (auto simp: norm_step_plain)

lemma join_sep_empty: "list_all plain R \<Longrightarrow> join_sep R = [] \<Longrightarrow> R = []"
  by (induction R rule: join_sep.induct) (auto simp: plain_def)

lemma normalize_render:
  assumes "p \<noteq> []"
  shows "npath_normalize p =
     render (hd p = slash) (last p = slash)
       (foldl (norm_step (hd p \<noteq> slash)) [] (split_sep p))"
proof -
  have "list_all plain (foldl (norm_step (hd p \<noteq> slash)) [] (split_sep p))"
    by (intro foldl_plain) (auto dest: split_sep_no_slash)
  then have "join_sep (foldl (norm_step (hd p \<noteq> slash)) [] (split_sep p)) = [] \<longleftrightarrow>
      foldl (norm_step (hd p \<noteq> slash)) [] (split_sep p) = []"
    by (auto dest: join_sep_empty)
  then show ?thesis using assms
    by (simp add: npath_normalize_def render_def normalizeString_def Let_def)
qed

lemma norm_step_no_dotdot:
  "''..'' \<notin> set S \<Longrightarrow> ''..'' \<notin> set (norm_step False S s)"
  by (auto simp: norm_step_def dest: in_set_butlastD)

lemma foldl_no_dotdot:
  "''..'' \<notin> set S \<Longrightarrow> ''..'' \<notin> set (foldl (norm_step False) S xs)"
  by (induction xs arbitrary: S) (auto simp: norm_step_no_dotdot)

lemma foldl_names:
  "list_all plain R \<Longrightarrow> ''..'' \<notin> set R \<Longrightarrow> foldl (norm_step abv) S R = S @ R"
proof (induction R arbitrary: S)
  case Nil
  then show ?case by simp
next
  case (Cons s R)
  then have "norm_step abv S s = S @ [s]" by (intro norm_step_name) (auto simp: plain_def)
  with Cons show ?case by simp
qed

text \<open>Normalizing a relative tail first does not change the result.\<close>

lemma foldl_relative_tail:
  "\<forall>s \<in> set xs. slash \<notin> set s \<Longrightarrow>
   foldl (norm_step abv) S (foldl (norm_step True) [] xs) = foldl (norm_step abv) S xs"
proof (induction xs rule: rev_induct)
  case Nil
  then show ?case by simp
next
  case (snoc s xs)
  let ?R = "foldl (norm_step True) [] xs"
  from snoc have ih: "foldl (norm_step abv) S ?R = foldl (norm_step abv) S xs" by simp
  from snoc.prems have pl: "list_all plain ?R" by (intro foldl_plain) auto
  show ?case
  proof (cases "s = ''..'' \<and> ?R \<noteq> [] \<and> last ?R \<noteq> ''..''")
    case True
    then obtain R' n where R: "?R = R' @ [n]" and n: "n \<noteq> ''..''"
      by (metis append_butlast_last_id)
    from pl R have "plain n" by simp
    with n have "norm_step abv (foldl (norm_step abv) S R') n = foldl (norm_step abv) S R' @ [n]"
      by (intro norm_step_name) (auto simp: plain_def)
    then have "foldl (norm_step abv) S ?R = foldl (norm_step abv) S R' @ [n]"
      by (simp add: R)
    with ih have A: "foldl (norm_step abv) S xs = foldl (norm_step abv) S R' @ [n]" by simp
    have "norm_step abv (foldl (norm_step abv) S xs) ''..'' = foldl (norm_step abv) S R'"
      unfolding A using n by (simp add: norm_step_def)
    moreover have "norm_step True ?R ''..'' = R'" using True R by (simp add: norm_step_def)
    ultimately show ?thesis using True by simp
  next
    case False
    then have "norm_step True ?R s = ?R \<or> norm_step True ?R s = ?R @ [s]"
      by (auto simp: norm_step_def)
    then show ?thesis
    proof
      assume e: "norm_step True ?R s = ?R"
      then have "s = [] \<or> s = ''.''" using False by (auto simp: norm_step_def split: if_splits)
      then show ?thesis using ih by auto
    next
      assume "norm_step True ?R s = ?R @ [s]"
      then show ?thesis using ih by simp
    qed
  qed
qed

lemma foldl_idem:
  assumes "\<forall>s \<in> set xs. slash \<notin> set s"
  shows "foldl (norm_step abv) [] (foldl (norm_step abv) [] xs) = foldl (norm_step abv) [] xs"
proof (cases abv)
  case True
  with assms show ?thesis by (simp add: foldl_relative_tail)
next
  case False
  have "list_all plain (foldl (norm_step False) [] xs)" using assms by (intro foldl_plain) auto
  moreover have "''..'' \<notin> set (foldl (norm_step False) [] xs)" by (intro foldl_no_dotdot) simp
  ultimately show ?thesis using False by (simp add: foldl_names)
qed

lemma split_sep_trailing: "split_sep (x @ [slash]) = split_sep x @ [[]]"
  using split_sep_append [of x "[]"] by simp

lemma join_sep_nonempty: "R \<noteq> [] \<Longrightarrow> list_all plain R \<Longrightarrow> join_sep R \<noteq> []"
  by (auto dest: join_sep_empty)

lemma hd_join_sep: "R \<noteq> [] \<Longrightarrow> list_all plain R \<Longrightarrow> hd (join_sep R) = hd (hd R)"
  by (induction R rule: join_sep.induct) (auto simp: plain_def)

lemma last_join_sep: "R \<noteq> [] \<Longrightarrow> list_all plain R \<Longrightarrow> last (join_sep R) = last (last R)"
proof (induction R rule: join_sep.induct)
  case 1
  then show ?case by simp
next
  case (2 s)
  then show ?case by simp
next
  case (3 s t ss)
  then have "join_sep (t # ss) \<noteq> []" by (intro join_sep_nonempty) simp_all
  with 3 show ?case by simp
qed

lemma plain_hd_last: "plain s \<Longrightarrow> hd s \<noteq> slash \<and> last s \<noteq> slash"
proof -
  assume "plain s"
  then have "s \<noteq> []" "slash \<notin> set s" by (simp_all add: plain_def)
  then show ?thesis by (metis hd_in_set last_in_set)
qed

lemma render_nonempty: "list_all plain R \<Longrightarrow> render a t R \<noteq> []"
  by (auto simp: render_def dest: join_sep_empty)

lemma hd_render: "list_all plain R \<Longrightarrow> (hd (render a t R) = slash) = a"
proof (cases "R = []")
  case True
  then show ?thesis by (simp add: render_def slash_def)
next
  case False
  assume pl: "list_all plain R"
  with False have "plain (hd R)" by (cases R) auto
  then have "hd (hd R) \<noteq> slash" by (simp add: plain_hd_last)
  with False pl have "hd (join_sep R) \<noteq> slash" by (simp add: hd_join_sep)
  moreover have "join_sep R \<noteq> []" using False pl by (rule join_sep_nonempty)
  ultimately show ?thesis using False by (simp add: render_def slash_def)
qed

lemma last_render:
  assumes "list_all plain R" and "R \<noteq> [] \<or> \<not> a"
  shows "(last (render a t R) = slash) = t"
proof (cases "R = []")
  case True
  with assms show ?thesis by (simp add: render_def slash_def)
next
  case False
  with assms have "plain (last R)" by (simp add: list_all_iff)
  then have "last (last R) \<noteq> slash" by (simp add: plain_hd_last)
  with False assms have "last (join_sep R) \<noteq> slash" by (simp add: last_join_sep)
  moreover have "join_sep R \<noteq> []" using False assms(1) by (rule join_sep_nonempty)
  ultimately show ?thesis using False by (simp add: render_def slash_def)
qed

lemma render_last: "list_all plain R \<Longrightarrow> render a (last (render a t R) = slash) R = render a t R"
proof (cases "R \<noteq> [] \<or> \<not> a")
  case True
  assume "list_all plain R"
  then show ?thesis using True by (simp add: last_render)
next
  case False
  then show ?thesis by (simp add: render_def)
qed

lemma split_render:
  assumes "list_all plain R"
  shows "foldl (norm_step abv) S (split_sep (render a t R)) = foldl (norm_step abv) S R"
proof (cases "R = []")
  case True
  then show ?thesis by (simp add: render_def slash_def)
next
  case False
  from assms have ns: "\<forall>s \<in> set R. slash \<notin> set s" by (auto simp: list_all_iff plain_def)
  with False have sj: "split_sep (join_sep R) = R" by (rule split_join)
  have 1: "split_sep (slash # x) = [] # split_sep x" for x by simp
  show ?thesis
    using False sj
    by (simp add: render_def slash_def [symmetric] split_sep_trailing 1 del: split_sep.simps)
qed

lemma stack_plain: "list_all plain (foldl (norm_step abv) [] (split_sep x))"
  by (intro foldl_plain) (auto dest: split_sep_no_slash)

lemma split_no_slash: "\<forall>s \<in> set (split_sep x). slash \<notin> set s"
  by (auto dest: split_sep_no_slash)

lemma normalize_nonempty: "npath_normalize p \<noteq> []"
proof (cases "p = []")
  case True
  then show ?thesis by (simp add: npath_normalize_def)
next
  case False
  then show ?thesis by (simp add: normalize_render render_nonempty stack_plain)
qed

lemma hd_normalize: "p \<noteq> [] \<Longrightarrow> (hd (npath_normalize p) = slash) = (hd p = slash)"
  by (simp add: normalize_render hd_render stack_plain)

lemma normalize_left:
  assumes "x \<noteq> []" and "c \<noteq> []"
  shows "npath_normalize (npath_normalize x @ slash # c) = npath_normalize (x @ slash # c)"
proof -
  let ?abv = "hd x \<noteq> slash"
  let ?R = "foldl (norm_step ?abv) [] (split_sep x)"
  let ?nx = "npath_normalize x"
  have nx: "?nx = render (hd x = slash) (last x = slash) ?R"
    using assms(1) by (rule normalize_render)
  have ne: "?nx \<noteq> []" by (rule normalize_nonempty)
  have hd: "(hd ?nx = slash) = (hd x = slash)" using assms(1) by (rule hd_normalize)
  have st: "foldl (norm_step ?abv) [] (split_sep (?nx @ slash # c))
      = foldl (norm_step ?abv) [] (split_sep (x @ slash # c))"
  proof -
    have "foldl (norm_step ?abv) [] (split_sep ?nx) = foldl (norm_step ?abv) [] ?R"
      unfolding nx by (rule split_render) (rule stack_plain)
    also have "\<dots> = ?R" by (rule foldl_idem) (rule split_no_slash)
    finally show ?thesis by (simp add: split_sep_append del: split_sep.simps)
  qed
  have lhs: "npath_normalize (?nx @ slash # c)
      = render (hd x = slash) (last c = slash)
          (foldl (norm_step ?abv) [] (split_sep (?nx @ slash # c)))"
    using ne hd assms(2) normalize_render [of "?nx @ slash # c"] by simp
  have rhs: "npath_normalize (x @ slash # c)
      = render (hd x = slash) (last c = slash)
          (foldl (norm_step ?abv) [] (split_sep (x @ slash # c)))"
    using assms normalize_render [of "x @ slash # c"] by simp
  show ?thesis by (simp only: lhs rhs st)
qed

lemma normalize_right:
  assumes "a \<noteq> []" and "y \<noteq> []" and "hd y \<noteq> slash"
  shows "npath_normalize (a @ slash # npath_normalize y) = npath_normalize (a @ slash # y)"
proof -
  let ?abv = "hd a \<noteq> slash"
  let ?R = "foldl (norm_step True) [] (split_sep y)"
  let ?ny = "npath_normalize y"
  have ny: "?ny = render False (last y = slash) ?R"
    using assms(2,3) by (simp add: normalize_render)
  have ne: "?ny \<noteq> []" by (rule normalize_nonempty)
  have la: "(last ?ny = slash) = (last y = slash)"
    unfolding ny by (rule last_render) (simp_all add: stack_plain)
  have st: "foldl (norm_step ?abv) [] (split_sep (a @ slash # ?ny))
      = foldl (norm_step ?abv) [] (split_sep (a @ slash # y))"
  proof -
    let ?S = "foldl (norm_step ?abv) [] (split_sep a)"
    have "foldl (norm_step ?abv) ?S (split_sep ?ny) = foldl (norm_step ?abv) ?S ?R"
      unfolding ny by (rule split_render) (rule stack_plain)
    also have "\<dots> = foldl (norm_step ?abv) ?S (split_sep y)"
      by (rule foldl_relative_tail) (rule split_no_slash)
    finally show ?thesis by (simp add: split_sep_append del: split_sep.simps)
  qed
  have lhs: "npath_normalize (a @ slash # ?ny)
      = render (hd a = slash) (last y = slash)
          (foldl (norm_step ?abv) [] (split_sep (a @ slash # ?ny)))"
    using ne la assms(1) normalize_render [of "a @ slash # ?ny"] by simp
  have rhs: "npath_normalize (a @ slash # y)
      = render (hd a = slash) (last y = slash)
          (foldl (norm_step ?abv) [] (split_sep (a @ slash # y)))"
    using assms normalize_render [of "a @ slash # y"] by simp
  show ?thesis by (simp only: lhs rhs st)
qed

lemma normalize_idem: "npath_normalize (npath_normalize y) = npath_normalize y"
proof (cases "y = []")
  case True
  then show ?thesis by (simp add: npath_normalize_def) code_simp
next
  case False
  let ?abv = "hd y \<noteq> slash"
  let ?R = "foldl (norm_step ?abv) [] (split_sep y)"
  let ?ny = "npath_normalize y"
  have ny: "?ny = render (hd y = slash) (last y = slash) ?R"
    using False by (rule normalize_render)
  have ne: "?ny \<noteq> []" by (rule normalize_nonempty)
  have hd: "(hd ?ny = slash) = (hd y = slash)" using False by (rule hd_normalize)
  have "foldl (norm_step ?abv) [] (split_sep ?ny) = foldl (norm_step ?abv) [] ?R"
    unfolding ny by (rule split_render) (rule stack_plain)
  also have "\<dots> = ?R" by (rule foldl_idem) (rule split_no_slash)
  finally have st: "foldl (norm_step ?abv) [] (split_sep ?ny) = ?R" .
  have "npath_normalize ?ny = render (hd y = slash) (last ?ny = slash) ?R"
    using ne hd st normalize_render [of ?ny] by simp
  also have "\<dots> = ?ny"
    using render_last [of ?R "hd y = slash" "last y = slash"] stack_plain [of ?abv y] ny by simp
  finally show ?thesis .
qed

lemma join2:
  "npath_join [x, y] =
     (if x = [] then (if y = [] then ''.'' else npath_normalize y)
      else if y = [] then npath_normalize x else npath_normalize (x @ slash # y))"
  by (simp add: npath_join_def)

lemma join_assoc:
  assumes "b \<noteq> []" and "hd b \<noteq> slash"
  shows "npath_join [npath_join [a, b], c] = npath_join [a, npath_join [b, c]]"
proof (cases "c = []")
  case c: True
  show ?thesis
  proof (cases "a = []")
    case True
    with c assms show ?thesis by (simp add: join2 normalize_nonempty normalize_idem)
  next
    case False
    have "npath_join [npath_join [a, b], c] = npath_normalize (a @ slash # b)"
      using False c assms by (simp add: join2 normalize_nonempty normalize_idem)
    also have "\<dots> = npath_normalize (a @ slash # npath_normalize b)"
      using False assms by (intro normalize_right [symmetric])
    also have "\<dots> = npath_join [a, npath_join [b, c]]"
      using False c assms by (simp add: join2 normalize_nonempty)
    finally show ?thesis .
  qed
next
  case c: False
  show ?thesis
  proof (cases "a = []")
    case True
    have "npath_join [npath_join [a, b], c] = npath_normalize (npath_normalize b @ slash # c)"
      using True c assms by (simp add: join2 normalize_nonempty)
    also have "\<dots> = npath_normalize (b @ slash # c)" using c assms by (simp add: normalize_left)
    also have "\<dots> = npath_join [a, npath_join [b, c]]"
      using True c assms by (simp add: join2 normalize_nonempty normalize_idem)
    finally show ?thesis .
  next
    case False
    have "npath_join [npath_join [a, b], c]
        = npath_normalize (npath_normalize (a @ slash # b) @ slash # c)"
      using False c assms by (simp add: join2 normalize_nonempty)
    also have "\<dots> = npath_normalize ((a @ slash # b) @ slash # c)"
      using c by (intro normalize_left) simp_all
    also have "\<dots> = npath_normalize (a @ slash # (b @ slash # c))" by simp
    also have "\<dots> = npath_normalize (a @ slash # npath_normalize (b @ slash # c))"
      using False assms by (intro normalize_right [symmetric]) simp_all
    also have "\<dots> = npath_join [a, npath_join [b, c]]"
      using False c assms by (simp add: join2 normalize_nonempty)
    finally show ?thesis .
  qed
qed

lemma entry_name_plain: "entry_name n \<Longrightarrow> plain n"
  by (simp add: entry_name_def plain_def)

lemma kept_segments_plain: "list_all plain (kept_segments p)"
  by (simp add: kept_segments_def stack_plain)

lemma kept_segments_render:
  assumes "list_all plain R"
    and "foldl (norm_step (\<not> a)) [] R = R"
  shows "kept_segments (render a t R) = R"
proof -
  have "render a t R \<noteq> []" using assms(1) by (rule render_nonempty)
  moreover have "(hd (render a t R) = slash) = a" using assms(1) by (rule hd_render)
  ultimately show ?thesis
    using split_render [OF assms(1), of "\<not> a" "[]" a t] assms(2)
    by (simp add: kept_segments_def)
qed

lemma kept_segments_join:
  assumes "entry_name n"
  shows "kept_segments (npath_join [p, n]) = kept_segments p @ [n]"
proof -
  from assms have n: "n \<noteq> []" "n \<noteq> ''.''" "n \<noteq> ''..''" "slash \<notin> set n"
    by (simp_all add: entry_name_def)
  then have hn: "hd n \<noteq> slash" by (metis hd_in_set)
  have sn: "split_sep n = [n]" using n(4) by (rule split_sep_plain)
  show ?thesis
  proof (cases "p = []")
    case True
    have "npath_join [p, n] = npath_normalize n" using True n by (simp add: join2)
    also have "\<dots> = render False (last n = slash) [n]"
      using n hn by (simp add: normalize_render sn norm_step_name)
    finally have "kept_segments (npath_join [p, n]) = [n]"
      using assms n by (simp add: kept_segments_render entry_name_plain norm_step_name)
    then show ?thesis using True by (simp add: kept_segments_def)
  next
    case False
    let ?abv = "hd p \<noteq> slash"
    let ?S = "foldl (norm_step ?abv) [] (split_sep p)"
    have S: "kept_segments p = ?S" using False by (simp add: kept_segments_def)
    have st: "foldl (norm_step ?abv) [] (split_sep (p @ slash # n)) = ?S @ [n]"
      using n by (simp add: split_sep_append sn norm_step_name del: split_sep.simps)
    have "npath_join [p, n] = npath_normalize (p @ slash # n)"
      using False n by (simp add: join2)
    also have "\<dots> = render (hd p = slash) (last (p @ slash # n) = slash) (?S @ [n])"
      using False normalize_render [of "p @ slash # n"] st by simp
    finally have j: "npath_join [p, n]
        = render (hd p = slash) (last (p @ slash # n) = slash) (?S @ [n])" .
    have pl: "list_all plain (?S @ [n])"
      using assms by (simp add: stack_plain entry_name_plain)
    have "foldl (norm_step ?abv) [] ?S = ?S" by (rule foldl_idem) (rule split_no_slash)
    then have idem: "foldl (norm_step (\<not> hd p = slash)) [] (?S @ [n]) = ?S @ [n]"
      using n by (simp add: norm_step_name)
    show ?thesis unfolding j S using pl idem by (rule kept_segments_render)
  qed
qed

lemma distinct_concat_tagged:
  assumes "distinct (map key ks)"
    and "\<forall>k \<in> set ks. distinct (f k)"
    and "\<forall>k \<in> set ks. \<forall>x \<in> set (f k). tag x = key k"
  shows "distinct (concat (map f ks))"
  using assms
proof (induction ks)
  case Nil
  then show ?case by simp
next
  case (Cons k ks)
  have "set (f k) \<inter> set (concat (map f ks)) = {}"
  proof (rule ccontr)
    assume "set (f k) \<inter> set (concat (map f ks)) \<noteq> {}"
    then obtain x k' where x: "x \<in> set (f k)" "k' \<in> set ks" "x \<in> set (f k')" by auto
    with Cons.prems(3) have "key k = key k'" by (metis list.set_intros(1,2))
    with x(2) Cons.prems(1) show False by auto
  qed
  with Cons show ?case by simp
qed


section \<open>Evaluations at concrete paths\<close>

lemma Path_absolute_of_absolute:
  "p \<noteq> [] \<Longrightarrow> hd p = slash \<Longrightarrow>
   Path_absolute cwd p = [slash] @ normalizeString (p @ [slash]) False"
  by (simp add: Path_absolute_def npath_resolve_def)

lemma normalizeString_ex1: "normalizeString ''/a/'' False = ''a''" by code_simp
lemma normalizeString_ex2: "normalizeString ''//'' False = []" by code_simp
lemma normalizeString_ex3: "normalizeString ''/x/a/b/'' False = ''x/a/b''" by code_simp

lemma absolute_ex1: "Path_absolute cwd ''/a'' = ''/a''"
  using Path_absolute_of_absolute [of "''/a''" cwd] normalizeString_ex1 by (simp add: slash_def)
lemma absolute_ex2: "Path_absolute cwd ''/'' = ''/''"
  using Path_absolute_of_absolute [of "''/''" cwd] normalizeString_ex2 by (simp add: slash_def)


lemma absolute_ex3: "Path_absolute cwd ''/x/a/b'' = ''/x/a/b''"
  using Path_absolute_of_absolute [of "''/x/a/b''" cwd] normalizeString_ex3
  by (simp add: slash_def)

lemma normalizeString_ex4: "normalizeString ''/a(/'' False = ''a(''" by code_simp

lemma absolute_ex4: "Path_absolute cwd ''/a('' = ''/a(''"
  using Path_absolute_of_absolute [of "''/a(''" cwd] normalizeString_ex4
  by (simp add: slash_def)

lemma regexp_ex1:
  "RegExp_new (CHR ''/'' # CHR ''a'' # separator_class) =
     Some (Inr [Single (Lit slash), Single (Lit (CHR ''a'')), Single (OneOf [slash, backslash])])"
  by code_simp

lemma replace_ex1:
  "String_replace ''/x/a/b''
     [Single (Lit slash), Single (Lit (CHR ''a'')), Single (OneOf [slash, backslash])] [] = ''/xb''"
  by code_simp

lemma regexp_ex2: "RegExp_new (CHR ''/'' # CHR ''a'' # CHR ''('' # separator_class) = Some (Inl SyntaxError)"
  by code_simp


section \<open>Properties of the resolver\<close>

lemma first_rejection_mem: "first_rejection ps = Some e \<Longrightarrow> Some (Inl e) \<in> set ps"
  by (induction ps rule: first_rejection.induct) auto

lemma first_rejection_None: "first_rejection ps = None \<Longrightarrow> Some (Inl e) \<notin> set ps"
  by (induction ps rule: first_rejection.induct) auto

lemma all_values_Some: "all_values ps = Some vs \<Longrightarrow> ps = map (\<lambda>v. Some (Inr v)) vs"
  by (induction ps arbitrary: vs rule: all_values.induct) auto

lemma all_values_map: "all_values (map (\<lambda>v. Some (Inr v)) vs) = Some vs"
  by (induction vs) auto

lemma first_rejection_map: "first_rejection (map (\<lambda>v. Some (Inr v)) vs) = None"
  by (induction vs) auto

lemma Promise_all_fulfils:
  "Promise_all ps = Some (Inr vs) \<longleftrightarrow> ps = map (\<lambda>v. Some (Inr v)) vs"
  by (auto simp: Promise_all_def all_values_map first_rejection_map
      split: option.splits dest: all_values_Some)

lemma Promise_all_rejects: "Promise_all ps = Some (Inl e) \<Longrightarrow> Some (Inl e) \<in> set ps"
  by (auto simp: Promise_all_def split: option.splits dest: first_rejection_mem)

lemma Promise_all_must_reject:
  "Some (Inl e) \<in> set ps \<Longrightarrow> \<exists>e'. Promise_all ps = Some (Inl e')"
  by (cases "first_rejection ps") (auto simp: Promise_all_def dest: first_rejection_None)


lemma stats_fulfil:
  "Promise_all (map (\<lambda>c. Some (FS_stat w c)) cps) = Some (Inr sts)
   \<Longrightarrow> list_all2 (\<lambda>c s. FS_stat w c = Inr s) cps sts"
proof -
  assume "Promise_all (map (\<lambda>c. Some (FS_stat w c)) cps) = Some (Inr sts)"
  then have "map (\<lambda>c. Some (FS_stat w c)) cps = map (\<lambda>v. Some (Inr v)) sts"
    by (simp add: Promise_all_fulfils)
  then have "list_all2 (=) (map (\<lambda>c. Some (FS_stat w c)) cps) (map (\<lambda>v. Some (Inr v)) sts)"
    by (simp add: list.rel_eq)
  then show ?thesis by (simp add: list.rel_map)
qed

lemma recursion_fulfil:
  assumes "Promise_all (map recurse (map2 (\<lambda>c s. Node c (stat_isDirectory s) None) cps sts)) = Some (Inr resolved)"
    and "length cps = length sts"
  shows "list_all2 (\<lambda>(c, s) m. recurse (Node c (stat_isDirectory s) None) = Some (Inr m)) (zip cps sts) resolved"
proof -
  from assms(1) have "map recurse (map2 (\<lambda>c s. Node c (stat_isDirectory s) None) cps sts) = map (\<lambda>v. Some (Inr v)) resolved"
    by (simp add: Promise_all_fulfils)
  then have "list_all2 (=) (map (\<lambda>(c, s). recurse (Node c (stat_isDirectory s) None)) (zip cps sts)) (map (\<lambda>v. Some (Inr v)) resolved)"
    by (simp add: list.rel_eq case_prod_unfold comp_def)
  then show ?thesis by (simp add: list.rel_map case_prod_unfold)
qed

lemma resolve_level_sound:
  assumes rec: "\<And>c st m. FS_stat w c = Inr st \<Longrightarrow>
      recurse (Node c (stat_isDirectory st) None) = Some (Inr m) \<Longrightarrow> good w m c (stat_isDirectory st)"
    and st: "FS_stat w p = Inr st"
    and res: "resolve_level w recurse (Node p (stat_isDirectory st) None) = Some (Inr t)"
  shows "good w t p (stat_isDirectory st)"
proof (cases "stat_isDirectory st")
  case False
  with res have "t = Node p False None" by (simp add: resolve_level_def)
  with False st show ?thesis by (simp add: good_def)
next
  case dir: True
  from res dir obtain cps where ls: "FS_ls w p = Inr cps"
    by (auto simp: resolve_level_def split: sum.splits)
  show ?thesis
  proof (cases "cps = []")
    case True
    with res dir ls have "t = Node p True None" by (simp add: resolve_level_def)
    with dir st ls True show ?thesis by (simp add: good_def)
  next
    case False
    from res dir ls False obtain sts where
      sts: "Promise_all (map (\<lambda>c. Some (FS_stat w c)) cps) = Some (Inr sts)"
      by (auto simp: resolve_level_def split: option.splits sum.splits)
    from res dir ls False sts obtain resolved where
      rs: "Promise_all (map recurse (map2 (\<lambda>c s. Node c (stat_isDirectory s) None) cps sts)) = Some (Inr resolved)"
      and t: "t = Node p True (Some resolved)"
      by (auto simp: resolve_level_def Let_def split: option.splits sum.splits)
    have a: "list_all2 (\<lambda>c s. FS_stat w c = Inr s) cps sts" using sts by (rule stats_fulfil)
    then have len: "length cps = length sts" by (rule list_all2_lengthD)
    have b: "list_all2 (\<lambda>(c, s) m. recurse (Node c (stat_isDirectory s) None) = Some (Inr m)) (zip cps sts) resolved"
      using rs len by (rule recursion_fulfil)
    then have len2: "length resolved = length cps" using len by (auto dest: list_all2_lengthD)
    have g: "good w (resolved ! i) (cps ! i) (stat_isDirectory (sts ! i))" if "i < length cps" for i
    proof -
      from a that have "FS_stat w (cps ! i) = Inr (sts ! i)" by (simp add: list_all2_conv_all_nth)
      moreover from b that len have "recurse (Node (cps ! i) (stat_isDirectory (sts ! i)) None) = Some (Inr (resolved ! i))"
        by (simp add: list_all2_conv_all_nth)
      ultimately show ?thesis by (rule rec)
    qed
    have paths: "map path resolved = cps"
      using g len2 by (auto simp: good_def intro: nth_equalityI)
    have "list_all resolved_inv resolved" "list_all (reflects w) resolved"
      using g len2 by (auto simp: good_def list_all_length)
    moreover have "resolved \<noteq> []" using len2 False by auto
    ultimately show ?thesis using t dir st ls paths by (simp add: good_def)
  qed
qed

lemma resolveChildren_sound:
  "FS_stat w p = Inr st \<Longrightarrow>
   tree_resolveChildren fuel w (Node p (stat_isDirectory st) None) = Some (Inr t) \<Longrightarrow>
   good w t p (stat_isDirectory st)"
proof (induction fuel arbitrary: p st t)
  case 0
  then show ?case by (auto intro: resolve_level_sound[where recurse = "\<lambda>n. None"])
next
  case (Suc fuel)
  from Suc.prems show ?case
    by (auto intro: resolve_level_sound[where recurse = "tree_resolveChildren fuel w"] Suc.IH)
qed

lemma FS_tree_sound:
  "FS_tree fuel w p = Some (Inr t) \<Longrightarrow> path t = p \<and> resolved_inv t \<and> reflects w t"
  by (auto simp: FS_tree_def good_def split: sum.splits dest: resolveChildren_sound)

lemma stats_reject:
  "Promise_all (map (\<lambda>c. Some (FS_stat w c)) cps) = Some (Inl e)
   \<Longrightarrow> \<exists>c \<in> set cps. FS_stat w c = Inl e"
  by (fastforce dest!: Promise_all_rejects)

lemma all_values_settled:
  "None \<notin> set ps \<Longrightarrow> first_rejection ps = None \<Longrightarrow> all_values ps \<noteq> None"
proof (induction ps)
  case Nil
  then show ?case by simp
next
  case (Cons a ps)
  then obtain r where a: "a = Some r" by (cases a) auto
  with Cons show ?case by (cases r) auto
qed

lemma Promise_all_settles: "None \<notin> set ps \<Longrightarrow> Promise_all ps \<noteq> None"
  by (cases "first_rejection ps") (auto simp: Promise_all_def dest: all_values_settled)

lemma stats_settle: "Promise_all (map (\<lambda>c. Some (FS_stat w c)) cps) \<noteq> None"
  by (rule Promise_all_settles) auto


lemma resolve_level_error:
  assumes rec: "\<And>c st e. FS_stat w c = Inr st \<Longrightarrow>
      recurse (Node c (stat_isDirectory st) None) = Some (Inl e) \<Longrightarrow> resolution_fails w c e"
    and st: "FS_stat w p = Inr st"
    and res: "resolve_level w recurse (Node p (stat_isDirectory st) None) = Some (Inl e)"
  shows "resolution_fails w p e"
proof -
  from res have dir: "stat_isDirectory st" by (auto simp: resolve_level_def split: if_splits)
  show ?thesis
  proof (cases "FS_ls w p")
    case (Inl e')
    with res dir have "e' = e" by (simp add: resolve_level_def)
    with Inl st dir show ?thesis by (auto intro: ls_fails)
  next
    case (Inr cps)
    with res dir have ne: "cps \<noteq> []" by (auto simp: resolve_level_def split: if_splits)
    show ?thesis
    proof (cases "Promise_all (map (\<lambda>c. Some (FS_stat w c)) cps)")
      case None
      then show ?thesis by (simp add: stats_settle)
    next
      case (Some r)
      show ?thesis
      proof (cases r)
        case (Inl e')
        with res dir Inr ne Some have "e' = e" by (simp add: resolve_level_def)
        with Some Inl obtain c where "c \<in> set cps" "FS_stat w c = Inl e"
          by (auto dest: stats_reject)
        then show ?thesis using st dir Inr by (auto intro: child_fails stat_fails)
      next
        case (Inr sts)
        note sts = Some[unfolded Inr]
        from res dir \<open>FS_ls w p = Inr cps\<close> ne sts
        have rj: "Promise_all (map recurse (map2 (\<lambda>c s. Node c (stat_isDirectory s) None) cps sts)) = Some (Inl e)"
          by (auto simp: resolve_level_def Let_def split: option.splits sum.splits)
        have a: "list_all2 (\<lambda>c s. FS_stat w c = Inr s) cps sts" using sts by (rule stats_fulfil)
        from rj have "Some (Inl e) \<in> set (map recurse (map2 (\<lambda>c s. Node c (stat_isDirectory s) None) cps sts))"
          by (rule Promise_all_rejects)
        then obtain c s where cs: "(c, s) \<in> set (zip cps sts)"
          and r: "recurse (Node c (stat_isDirectory s) None) = Some (Inl e)"
          by auto
        from a cs have "FS_stat w c = Inr s"
          by (auto simp: list_all2_iff)
        then have "resolution_fails w c e" using r by (rule rec)
        moreover from cs have "c \<in> set cps" by (rule set_zip_leftD)
        ultimately show ?thesis using st dir \<open>FS_ls w p = Inr cps\<close> by (auto intro: child_fails)
      qed
    qed
  qed
qed

lemma resolveChildren_error:
  "FS_stat w p = Inr st \<Longrightarrow>
   tree_resolveChildren fuel w (Node p (stat_isDirectory st) None) = Some (Inl e) \<Longrightarrow>
   resolution_fails w p e"
proof (induction fuel arbitrary: p st e)
  case 0
  then show ?case by (auto intro: resolve_level_error[where recurse = "\<lambda>n. None"])
next
  case (Suc fuel)
  from Suc.prems show ?case
    by (auto intro: resolve_level_error[where recurse = "tree_resolveChildren fuel w"] Suc.IH)
qed

lemma FS_tree_error: "FS_tree fuel w p = Some (Inl e) \<Longrightarrow> resolution_fails w p e"
  by (auto simp: FS_tree_def split: sum.splits intro: stat_fails dest: resolveChildren_error)

lemma reflects_not_fails: "resolution_fails w p e \<Longrightarrow> reflects w t \<Longrightarrow> path t = p \<Longrightarrow> False"
proof (induction arbitrary: t rule: resolution_fails.induct)
  case (stat_fails w p e)
  then show ?case by (cases t) auto
next
  case (ls_fails w p st e)
  then show ?case by (cases t) (auto split: sum.splits if_splits)
next
  case (child_fails w p st cs c e)
  obtain q d ks where t: "t = Node q d ks" by (cases t)
  with child_fails.prems child_fails.hyps have d: d and q: "q = p"
    and ls: "cs = map path (case ks of None \<Rightarrow> [] | Some ks \<Rightarrow> ks)"
    and all: "case ks of None \<Rightarrow> True | Some ks \<Rightarrow> list_all (reflects w) ks"
    by (auto split: if_splits)
  from \<open>c \<in> set cs\<close> ls obtain ks' k where "ks = Some ks'" "k \<in> set ks'" "path k = c"
    by (cases ks) auto
  with all have "reflects w k" by (simp add: list_all_iff)
  with child_fails.IH \<open>path k = c\<close> show ?case by blast
qed

text \<open>A failure is found once the fuel reaches its depth.\<close>

lemma resolve_level_must_fail:
  assumes st: "FS_stat w p = Inr st" and dir: "stat_isDirectory st"
    and ls: "FS_ls w p = Inr cps" and c: "c \<in> set cps"
    and cst: "FS_stat w c = Inr s"
    and r: "recurse (Node c (stat_isDirectory s) None) = Some (Inl e)"
  shows "\<exists>e'. resolve_level w recurse (Node p (stat_isDirectory st) None) = Some (Inl e')"
proof -
  from c have ne: "cps \<noteq> []" by auto
  show ?thesis
  proof (cases "Promise_all (map (\<lambda>c. Some (FS_stat w c)) cps)")
    case None
    then show ?thesis by (simp add: stats_settle)
  next
    case (Some r')
    show ?thesis
    proof (cases r')
      case (Inl e')
      with Some dir ls ne show ?thesis by (simp add: resolve_level_def)
    next
      case (Inr sts)
      note sts = Some[unfolded Inr]
      have a: "list_all2 (\<lambda>c s. FS_stat w c = Inr s) cps sts" using sts by (rule stats_fulfil)
      from c obtain i where i: "i < length cps" "cps ! i = c" by (auto simp: in_set_conv_nth)
      with a cst have "sts ! i = s" and len: "length cps = length sts"
        by (auto simp: list_all2_conv_all_nth)
      with i have "(c, s) \<in> set (zip cps sts)" by (auto simp: in_set_zip)
      then have "Some (Inl e) \<in> set (map recurse (map2 (\<lambda>c s. Node c (stat_isDirectory s) None) cps sts))"
        using r by force
      then obtain e' where "Promise_all (map recurse (map2 (\<lambda>c s. Node c (stat_isDirectory s) None) cps sts)) = Some (Inl e')"
        by (blast dest: Promise_all_must_reject)
      with sts dir ls ne show ?thesis by (simp add: resolve_level_def)
    qed
  qed
qed


lemma fails_found:
  "resolution_fails w p e \<Longrightarrow> \<exists>k. \<forall>fuel \<ge> k. \<exists>e'. FS_tree fuel w p = Some (Inl e')"
proof (induction rule: resolution_fails.induct)
  case (stat_fails w p e)
  then show ?case by (auto simp: FS_tree_def)
next
  case (ls_fails w p st e)
  have "tree_resolveChildren fuel w (Node p True None) = Some (Inl e)" for fuel
    using ls_fails by (cases fuel) (simp_all add: resolve_level_def)
  with ls_fails show ?case by (auto simp: FS_tree_def)
next
  case (child_fails w p st cs c e)
  then obtain k where k: "\<And>fuel. fuel \<ge> k \<Longrightarrow> \<exists>e'. FS_tree fuel w c = Some (Inl e')" by blast
  have "\<exists>e'. FS_tree fuel w p = Some (Inl e')" if "fuel \<ge> Suc k" for fuel
  proof -
    from that obtain f where f: "fuel = Suc f" "f \<ge> k" by (cases fuel) auto
    from k[OF f(2)] obtain e' where e': "FS_tree f w c = Some (Inl e')" by blast
    show ?thesis
    proof (cases "FS_stat w c")
      case (Inl e'')
      then have "Some (Inl e'') \<in> set (map (\<lambda>c. Some (FS_stat w c)) cs)"
        using \<open>c \<in> set cs\<close> by force
      then obtain e3 where "Promise_all (map (\<lambda>c. Some (FS_stat w c)) cs) = Some (Inl e3)"
        by (blast dest: Promise_all_must_reject)
      with child_fails.hyps have "resolve_level w (tree_resolveChildren f w) (Node p (stat_isDirectory st) None) = Some (Inl e3)"
        by (auto simp: resolve_level_def)
      with child_fails.hyps f show ?thesis by (simp add: FS_tree_def)
    next
      case (Inr s)
      with e' have "tree_resolveChildren f w (Node c (stat_isDirectory s) None) = Some (Inl e')"
        by (simp add: FS_tree_def)
      with child_fails.hyps Inr
      have "\<exists>e'. resolve_level w (tree_resolveChildren f w) (Node p (stat_isDirectory st) None) = Some (Inl e')"
        by (intro resolve_level_must_fail) auto
      with child_fails.hyps f show ?thesis by (simp add: FS_tree_def)
    qed
  qed
  then show ?case by blast
qed

lemma nodes_resolved:
  "m \<in> set (nodes t) \<Longrightarrow> resolved_inv t \<Longrightarrow> reflects w t \<Longrightarrow> resolved_inv m \<and> reflects w m"
proof (induction t arbitrary: m rule: nodes.induct)
  case (1 p d)
  then show ?case by simp
next
  case (2 p d ks)
  from "2.prems"(1) have "m = Node p d (Some ks) \<or> (\<exists>k \<in> set ks. m \<in> set (nodes k))"
    by auto
  then show ?case
  proof
    assume "m = Node p d (Some ks)"
    with "2.prems" show ?thesis by simp
  next
    assume "\<exists>k \<in> set ks. m \<in> set (nodes k)"
    then obtain k where k: "k \<in> set ks" "m \<in> set (nodes k)" by blast
    with "2.prems" have "resolved_inv k" "reflects w k"
      by (auto simp: list_all_iff split: if_splits)
    with k "2.IH" show ?thesis by blast
  qed
qed


section \<open>The paths of a resolved tree\<close>

lemma reflects_children:
  assumes "listings_valid w" and "reflects w (Node p d (Some ks))"
  shows "distinct (map (kept_segments \<circ> path) ks) \<and>
         (\<forall>k \<in> set ks. \<exists>n. kept_segments (path k) = kept_segments p @ [n])"
proof -
  from assms(2) have ls: "FS_ls w p = Inr (map path ks)" by (auto split: if_splits)
  then obtain names where rd: "nfs_readdir w (Path_absolute (process_cwd w) p) = Inr names"
    and mp: "map path ks = map (\<lambda>s. Path_prepend s [p]) names"
    by (auto simp: FS_ls_def split: sum.splits if_splits)
  from assms(1) rd have dn: "distinct names" and en: "list_all entry_name names"
    by (auto simp: listings_valid_def)
  have seg: "kept_segments (Path_prepend n [p]) = kept_segments p @ [n]" if "n \<in> set names" for n
    using that en by (simp add: Path_prepend_def kept_segments_join list_all_iff)
  have "map (kept_segments \<circ> path) ks = map kept_segments (map path ks)" by simp
  also have "\<dots> = map (\<lambda>n. kept_segments p @ [n]) names"
    unfolding mp using seg by simp
  finally have m: "map (kept_segments \<circ> path) ks = map (\<lambda>n. kept_segments p @ [n]) names" .
  have "distinct (map (\<lambda>n. kept_segments p @ [n]) names)"
    using dn by (simp add: distinct_map inj_on_def)
  with m have 1: "distinct (map (kept_segments \<circ> path) ks)" by simp
  have 2: "\<exists>n. kept_segments (path k) = kept_segments p @ [n]" if "k \<in> set ks" for k
  proof -
    from that have "(kept_segments \<circ> path) k \<in> set (map (kept_segments \<circ> path) ks)" by simp
    with m show ?thesis by auto
  qed
  from 1 2 show ?thesis by blast
qed

lemma reflects_distinct:
  assumes "listings_valid w"
  shows "reflects w t \<Longrightarrow>
     distinct (map (kept_segments \<circ> path) (nodes t)) \<and>
     (\<forall>m \<in> set (nodes t). prefix (kept_segments (path t)) (kept_segments (path m)))"
proof (induction t rule: nodes.induct)
  case (1 p d)
  then show ?case by simp
next
  case (2 p d ks)
  let ?key = "kept_segments \<circ> path"
  let ?S = "kept_segments p"
  from reflects_children [OF assms "2.prems"]
  have dk: "distinct (map ?key ks)"
    and ch: "\<forall>k \<in> set ks. \<exists>n. kept_segments (path k) = ?S @ [n]" by blast+
  have rk: "reflects w k" if "k \<in> set ks" for k
    using "2.prems" that by (auto simp: list_all_iff split: if_splits)
  have ih: "distinct (map ?key (nodes k)) \<and>
      (\<forall>m \<in> set (nodes k). prefix (kept_segments (path k)) (kept_segments (path m)))"
    if "k \<in> set ks" for k
    using "2.IH" [OF that rk [OF that]] .
  have tagged: "take (Suc (length ?S)) x = ?key k"
    if "k \<in> set ks" "x \<in> set (map ?key (nodes k))" for k x
  proof -
    from that(2) obtain m where m: "m \<in> set (nodes k)" "x = kept_segments (path m)" by auto
    with ih [OF that(1)] have "prefix (kept_segments (path k)) x" by simp
    moreover from ch that(1) obtain n where "kept_segments (path k) = ?S @ [n]" by blast
    ultimately show ?thesis by (auto simp: prefix_def)
  qed
  have "distinct (concat (map (\<lambda>k. map ?key (nodes k)) ks))"
    using dk ih tagged
    by (intro distinct_concat_tagged [where key = ?key and tag = "take (Suc (length ?S))"]) auto
  then have d1: "distinct (map ?key (concat (map nodes ks)))"
    by (simp add: map_concat comp_def)
  have below: "prefix ?S (kept_segments (path m)) \<and> kept_segments (path m) \<noteq> ?S"
    if "m \<in> set (concat (map nodes ks))" for m
  proof -
    from that obtain k where k: "k \<in> set ks" "m \<in> set (nodes k)" by auto
    with ih have "prefix (kept_segments (path k)) (kept_segments (path m))" by blast
    moreover from ch k(1) obtain n where "kept_segments (path k) = ?S @ [n]" by blast
    ultimately show ?thesis by (auto simp: prefix_def)
  qed
  have d2: "?key (Node p d (Some ks)) \<notin> ?key ` set (concat (map nodes ks))"
  proof (rule notI, elim imageE)
    fix m assume "?key (Node p d (Some ks)) = ?key m" "m \<in> set (concat (map nodes ks))"
    with below [of m] show False by simp
  qed
  have d3: "\<forall>m \<in> set (concat (map nodes ks)). prefix ?S (kept_segments (path m))"
    using below by blast
  have "nodes (Node p d (Some ks)) = Node p d (Some ks) # concat (map nodes ks)" by simp
  then show ?case using d1 d2 d3 by (simp add: comp_def del: nodes.simps set_concat)
qed

lemma flatten_nodes: "node_inv t \<Longrightarrow> tree_flatten t = map path (nodes t)"
proof (induction t rule: nodes.induct)
  case (1 p d)
  then show ?case by simp
next
  case (2 p d ks)
  then have "\<forall>k \<in> set ks. tree_flatten k = map path (nodes k)"
    by (auto simp: list_all_iff)
  then have A: "map tree_flatten ks = map (\<lambda>k. map path (nodes k)) ks" by simp
  show ?case using "2.prems" by (simp add: A map_concat comp_def)
qed

lemma resolved_node_inv: "resolved_inv t \<Longrightarrow> node_inv t"
  by (induction t rule: nodes.induct) (auto simp: list_all_iff)

lemma resolved_flatten_distinct:
  assumes "listings_valid w" and "FS_tree fuel w p = Some (Inr t)"
  shows "distinct (tree_flatten t)"
proof -
  from assms(2) have r: "resolved_inv t" "reflects w t" by (auto dest: FS_tree_sound)
  from reflects_distinct [OF assms(1) r(2)]
  have "distinct (map (kept_segments \<circ> path) (nodes t))" by blast
  then have "distinct (map kept_segments (map path (nodes t)))" by simp
  then have "distinct (map path (nodes t))"
    using distinct_map [of kept_segments "map path (nodes t)"] by blast
  with r(1) show ?thesis by (simp add: flatten_nodes resolved_node_inv)
qed


section \<open>Properties of the queries on the store\<close>

lemma Path_clone_props:
  "this < allocated h \<Longrightarrow> Path_clone this h = (r, h1) \<Longrightarrow>
   r = allocated h \<and> allocated h1 = Suc (allocated h) \<and> content h1 r = content h this \<and>
   (\<forall>q < allocated h. content h1 q = content h q)"
  by (auto simp: Path_clone_def Path_new_def)

lemma map_tnode_agree:
  "\<forall>r \<in> set_tnode k. f r = g r \<Longrightarrow> map_tnode f k = map_tnode g k"
  by (rule tnode.map_cong) auto

lemma fold_refines:
  assumes "\<forall>k \<in> set ks. \<forall>h. in_store k h \<longrightarrow> refines query_st query k h"
    and "\<forall>k \<in> set ks. in_store k h0"
    and "allocated h0 \<le> allocated hA"
    and "\<forall>r < allocated h0. content hA r = content h0 r"
  shows "\<exists>hB. foldl (\<lambda>acc childNode. let res = query_st childNode (snd acc)
                    in (fst acc @ fst res, snd res)) (paths, hA) ks
           = (paths @ [allocated hA ..< allocated hB], hB) \<and>
         allocated hA \<le> allocated hB \<and>
         map (content hB) [allocated hA ..< allocated hB]
           = concat (map (\<lambda>k. query (map_tnode (content h0) k)) ks) \<and>
         (\<forall>r < allocated hA. content hB r = content hA r)"
  using assms
proof (induction ks arbitrary: paths hA)
  case Nil
  then show ?case by auto
next
  case (Cons k ks)
  obtain rs h1 where q: "query_st k hA = (rs, h1)" by (cases "query_st k hA")
  from Cons.prems have ink: "in_store k hA" by (auto simp: in_store_def)
  with Cons.prems(1) have "refines query_st query k hA" by simp
  with q have rs: "rs = [allocated hA ..< allocated h1]" and le: "allocated hA \<le> allocated h1"
    and m: "map (content h1) rs = query (map_tnode (content hA) k)"
    and fr: "\<forall>r < allocated hA. content h1 r = content hA r"
    by (auto simp: refines_def)
  have same: "map_tnode (content hA) k = map_tnode (content h0) k"
    using Cons.prems by (intro map_tnode_agree) (auto simp: in_store_def)
  have "\<exists>hB. foldl (\<lambda>acc childNode. let res = query_st childNode (snd acc)
                    in (fst acc @ fst res, snd res)) (paths @ rs, h1) ks
           = ((paths @ rs) @ [allocated h1 ..< allocated hB], hB) \<and>
         allocated h1 \<le> allocated hB \<and>
         map (content hB) [allocated h1 ..< allocated hB]
           = concat (map (\<lambda>k. query (map_tnode (content h0) k)) ks) \<and>
         (\<forall>r < allocated h1. content hB r = content h1 r)"
    using Cons.prems le fr by (intro Cons.IH) auto
  then obtain hB where
    f: "foldl (\<lambda>acc childNode. let res = query_st childNode (snd acc)
                    in (fst acc @ fst res, snd res)) (paths @ rs, h1) ks
           = ((paths @ rs) @ [allocated h1 ..< allocated hB], hB)"
    and le2: "allocated h1 \<le> allocated hB"
    and m2: "map (content hB) [allocated h1 ..< allocated hB]
           = concat (map (\<lambda>k. query (map_tnode (content h0) k)) ks)"
    and fr2: "\<forall>r < allocated h1. content hB r = content h1 r"
    by blast
  have split: "[allocated hA ..< allocated hB] = [allocated hA ..< allocated h1] @ [allocated h1 ..< allocated hB]"
    using le le2 by (metis le_Suc_ex upt_add_eq_append)
  have "map (content hB) [allocated hA ..< allocated h1] = map (content h1) [allocated hA ..< allocated h1]"
    using fr2 by simp
  with m rs same have m1: "map (content hB) [allocated hA ..< allocated h1] = query (map_tnode (content h0) k)"
    by simp
  show ?case
    apply (rule exI [of _ hB])
    using q f rs le le2 m1 m2 fr fr2 split by simp
qed

lemma flatten_refines: "in_store n h \<Longrightarrow> refines tree_flatten_st tree_flatten n h"
proof (induction n h rule: tree_flatten_st.induct)
  case (1 p d cs h)
  from "1.prems" have p: "p < allocated h" by (simp add: in_store_def)
  obtain r h1 where c: "Path_clone p h = (r, h1)" by (cases "Path_clone p h")
  from Path_clone_props [OF p c]
  have r: "r = allocated h" and al: "allocated h1 = Suc (allocated h)"
    and cr: "content h1 (allocated h) = content h p"
    and ag: "\<forall>q < allocated h. content h1 q = content h q"
    by blast+
  show ?case
  proof (cases "\<not> d \<or> cs = None \<or> the cs = []")
    case True
    then have "tree_flatten_st (Node p d cs) h = ([r], h1)" using c by simp
    moreover have "tree_flatten (map_tnode (content h) (Node p d cs)) = [content h p]"
      using True by (cases cs) auto
    ultimately show ?thesis using r al cr ag
      by (simp add: refines_def del: tree_flatten_st.simps tree_flatten.simps)
  next
    case False
    then obtain ks where ks: "cs = Some ks" "ks \<noteq> []" and d: d by (cases cs) simp_all
    have ih: "\<forall>k \<in> set ks. \<forall>h'. in_store k h' \<longrightarrow> refines tree_flatten_st tree_flatten k h'"
    proof (intro ballI allI impI)
      fix k h' assume "k \<in> set ks" "in_store k h'"
      then show "refines tree_flatten_st tree_flatten k h'"
        using "1.IH" [OF c [symmetric] refl False, of k "([], h')"] ks by simp
    qed
    have ins: "\<forall>k \<in> set ks. in_store k h"
      using "1.prems" ks by (auto simp: in_store_def)
    have le: "allocated h \<le> allocated h1" using al by simp
    from fold_refines [OF ih ins le ag, of "[r]"]
    obtain hB where
      f: "foldl (\<lambda>acc childNode. let res = tree_flatten_st childNode (snd acc)
                    in (fst acc @ fst res, snd res)) ([r], h1) ks
           = ([r] @ [allocated h1 ..< allocated hB], hB)"
      and le2: "allocated h1 \<le> allocated hB"
      and m2: "map (content hB) [allocated h1 ..< allocated hB]
           = concat (map (\<lambda>k. tree_flatten (map_tnode (content h) k)) ks)"
      and fr2: "\<forall>r < allocated h1. content hB r = content h1 r"
      by blast
    have res: "tree_flatten_st (Node p d cs) h = (r # [allocated h1 ..< allocated hB], hB)"
      using c ks d f by simp
    have val: "tree_flatten (map_tnode (content h) (Node p d cs))
        = content h p # concat (map (\<lambda>k. tree_flatten (map_tnode (content h) k)) ks)"
      using ks d by (simp add: comp_def)
    have upt: "[allocated h ..< allocated hB] = allocated h # [allocated h1 ..< allocated hB]"
      using al le2 by (simp add: upt_conv_Cons)
    have c1: "content hB r = content h p" using r al cr fr2 by simp
    have c2: "\<forall>q < allocated h. content hB q = content h q" using al ag fr2 by simp
    have a1: "r # [allocated h1 ..< allocated hB] = [allocated h ..< allocated hB]"
      using upt r by simp
    have a2: "allocated h \<le> allocated hB" using le le2 by simp
    have a3: "map (content hB) (r # [allocated h1 ..< allocated hB])
        = tree_flatten (map_tnode (content h) (Node p d cs))"
      unfolding val using c1 m2 by simp
    show ?thesis
      unfolding refines_def res Let_def prod.case using a1 a2 a3 c2 by blast
  qed
qed


lemma files_refines: "in_store n h \<Longrightarrow> refines tree_files_st tree_files n h"
proof (induction n h rule: tree_files_st.induct)
  case (1 p d cs h)
  from "1.prems" have p: "p < allocated h" by (simp add: in_store_def)
  show ?case
  proof (cases d)
    case False
    obtain r h1 where c: "Path_clone p h = (r, h1)" by (cases "Path_clone p h")
    from Path_clone_props [OF p c]
    have r: "r = allocated h" and al: "allocated h1 = Suc (allocated h)"
      and cr: "content h1 (allocated h) = content h p"
      and ag: "\<forall>q < allocated h. content h1 q = content h q"
      by blast+
    from False have "tree_files_st (Node p d cs) h = ([r], h1)" using c by simp
    moreover have "tree_files (map_tnode (content h) (Node p d cs)) = [content h p]"
      using False by simp
    ultimately show ?thesis using r al cr ag
      by (simp add: refines_def del: tree_files_st.simps tree_files.simps)
  next
    case d: True
    show ?thesis
    proof (cases "cs = None \<or> the cs = []")
      case True
      then have "tree_files_st (Node p d cs) h = ([], h)" using d by simp
      moreover have "tree_files (map_tnode (content h) (Node p d cs)) = []"
        using True d by (cases cs) auto
      ultimately show ?thesis
        by (simp add: refines_def del: tree_files_st.simps tree_files.simps)
    next
      case False
      then obtain ks where ks: "cs = Some ks" "ks \<noteq> []" by (cases cs) simp_all
      have nd: "\<not> \<not> d" using d by simp
      have ih: "\<forall>k \<in> set ks. \<forall>h'. in_store k h' \<longrightarrow> refines tree_files_st tree_files k h'"
      proof (intro ballI allI impI)
        fix k h' assume "k \<in> set ks" "in_store k h'"
        then show "refines tree_files_st tree_files k h'"
          using "1.IH" [OF nd False, of k "([], h')"] ks by simp
      qed
      have ins: "\<forall>k \<in> set ks. in_store k h"
        using "1.prems" ks by (auto simp: in_store_def)
      from fold_refines [OF ih ins, of h "[]"]
      obtain hB where
        f: "foldl (\<lambda>acc childNode. let res = tree_files_st childNode (snd acc)
                      in (fst acc @ fst res, snd res)) ([], h) ks
             = ([] @ [allocated h ..< allocated hB], hB)"
        and le2: "allocated h \<le> allocated hB"
        and m2: "map (content hB) [allocated h ..< allocated hB]
             = concat (map (\<lambda>k. tree_files (map_tnode (content h) k)) ks)"
        and fr2: "\<forall>r < allocated h. content hB r = content h r"
        by auto
      have res: "tree_files_st (Node p d cs) h = ([allocated h ..< allocated hB], hB)"
        using ks d f by simp
      have val: "tree_files (map_tnode (content h) (Node p d cs))
          = concat (map (\<lambda>k. tree_files (map_tnode (content h) k)) ks)"
        using ks d by (simp add: comp_def)
      show ?thesis
        unfolding refines_def res Let_def prod.case val using le2 m2 fr2 by blast
    qed
  qed
qed

lemma directories_refines:
  "in_store n h \<Longrightarrow> refines tree_directories_st tree_directories n h"
proof (induction n h rule: tree_directories_st.induct)
  case (1 p d cs h)
  from "1.prems" have p: "p < allocated h" by (simp add: in_store_def)
  show ?case
  proof (cases "\<not> d \<or> cs = None \<or> the cs = []")
    case True
    then have "tree_directories_st (Node p d cs) h = ([], h)" by simp
    moreover have "tree_directories (map_tnode (content h) (Node p d cs)) = []"
      using True by (cases cs) auto
    ultimately show ?thesis
      by (simp add: refines_def del: tree_directories_st.simps tree_directories.simps)
  next
    case False
    then obtain ks where ks: "cs = Some ks" "ks \<noteq> []" and d: d by (cases cs) simp_all
    obtain r h1 where c: "Path_clone p h = (r, h1)" by (cases "Path_clone p h")
    from Path_clone_props [OF p c]
    have r: "r = allocated h" and al: "allocated h1 = Suc (allocated h)"
      and cr: "content h1 (allocated h) = content h p"
      and ag: "\<forall>q < allocated h. content h1 q = content h q"
      by blast+
    have ih: "\<forall>k \<in> set ks. \<forall>h'. in_store k h' \<longrightarrow>
        refines tree_directories_st tree_directories k h'"
    proof (intro ballI allI impI)
      fix k h' assume "k \<in> set ks" "in_store k h'"
      then show "refines tree_directories_st tree_directories k h'"
        using "1.IH" [OF False c [symmetric] refl, of k "([], h')"] ks by simp
    qed
    have ins: "\<forall>k \<in> set ks. in_store k h"
      using "1.prems" ks by (auto simp: in_store_def)
    have le: "allocated h \<le> allocated h1" using al by simp
    from fold_refines [OF ih ins le ag, of "[r]"]
    obtain hB where
      f: "foldl (\<lambda>acc childNode. let res = tree_directories_st childNode (snd acc)
                    in (fst acc @ fst res, snd res)) ([r], h1) ks
           = ([r] @ [allocated h1 ..< allocated hB], hB)"
      and le2: "allocated h1 \<le> allocated hB"
      and m2: "map (content hB) [allocated h1 ..< allocated hB]
           = concat (map (\<lambda>k. tree_directories (map_tnode (content h) k)) ks)"
      and fr2: "\<forall>r < allocated h1. content hB r = content h1 r"
      by blast
    have res: "tree_directories_st (Node p d cs) h = (r # [allocated h1 ..< allocated hB], hB)"
      using c ks d f by simp
    have val: "tree_directories (map_tnode (content h) (Node p d cs))
        = content h p # concat (map (\<lambda>k. tree_directories (map_tnode (content h) k)) ks)"
      using ks d by (simp add: comp_def)
    have upt: "[allocated h ..< allocated hB] = allocated h # [allocated h1 ..< allocated hB]"
      using al le2 by (simp add: upt_conv_Cons)
    have c1: "content hB r = content h p" using r al cr fr2 by simp
    have c2: "\<forall>q < allocated h. content hB q = content h q" using al ag fr2 by simp
    have a1: "r # [allocated h1 ..< allocated hB] = [allocated h ..< allocated hB]"
      using upt r by simp
    have a2: "allocated h \<le> allocated hB" using le le2 by simp
    have a3: "map (content hB) (r # [allocated h1 ..< allocated hB])
        = tree_directories (map_tnode (content h) (Node p d cs))"
      unfolding val using c1 m2 by simp
    show ?thesis
      unfolding refines_def res Let_def prod.case using a1 a2 a3 c2 by blast
  qed
qed

lemma Path_from_frame:
  "Path_from a h = (r, h1) \<Longrightarrow>
   allocated h \<le> allocated h1 \<and> (\<forall>q < allocated h. content h1 q = content h q)"
  by (cases a) (auto simp: Path_new_def)

lemma apply_op_frame:
  assumes "apply_op op this h = Some h2" and "q \<noteq> this" and "q < allocated h"
  shows "content h2 q = content h q"
  using assms
  by (cases op)
    (auto simp: set_path_def split: prod.splits option.splits sum.splits dest!: Path_from_frame)

lemma apply_op_allocated:
  "apply_op op this h = Some h2 \<Longrightarrow> allocated h \<le> allocated h2"
  by (cases op)
    (auto simp: set_path_def split: prod.splits option.splits sum.splits dest!: Path_from_frame)

lemma apply_ops_frame:
  "apply_ops ops h = Some h2 \<Longrightarrow> q \<notin> snd ` set ops \<Longrightarrow> q < allocated h \<Longrightarrow>
   content h2 q = content h q"
proof (induction ops arbitrary: h)
  case Nil
  then show ?case by simp
next
  case (Cons a ops)
  obtain op this where a: "a = (op, this)" by (cases a)
  with Cons.prems obtain h1 where h1: "apply_op op this h = Some h1" "apply_ops ops h1 = Some h2"
    by (auto split: option.splits)
  from Cons.prems a have ne: "q \<noteq> this" "q \<notin> snd ` set ops" by auto
  from h1(1) ne(1) Cons.prems(3) have "content h1 q = content h q" by (rule apply_op_frame)
  moreover from h1(1) Cons.prems(3) have "q < allocated h1"
    by (auto dest: apply_op_allocated)
  ultimately show ?case using Cons.IH [OF h1(2) ne(2)] by simp
qed


section \<open>Claims about flatten and completeness\<close>

text \<open>
  C1.  On every fully built tree, \<open>FS.tree.flatten\<close> returns the node's own path
  followed by the results for its children in order, and the singleton of the node's
  own path for a leaf or an empty directory; it yields one path for the node and one
  for each entry below it.  Hence for a tree delivered by \<open>FS.tree\<close>, which reflects the
  stats and listings of the world, the result has exactly \<open>N + 1\<close> paths, \<open>N\<close> being the
  number of entries below the root, and no path twice (the listings of the world
  holding entry names, each once).
\<close>

theorem flatten_preorder_complete:
  "(node_inv n \<longrightarrow>
      tree_flatten n = path n # concat (map tree_flatten (kids n)) \<and>
      (kids n = [] \<longrightarrow> tree_flatten n = [path n]) \<and>
      length (tree_flatten n) = Suc (entries_below n)) \<and>
   (listings_valid w \<and> FS_tree fuel w p = Some (Inr t) \<longrightarrow>
      node_inv t \<and> reflects w t \<and> path t = p \<and>
      length (tree_flatten t) = Suc (entries_below t) \<and>
      distinct (tree_flatten t))"
proof (intro conjI impI)
  assume inv: "node_inv n"
  then show u: "tree_flatten n = path n # concat (map tree_flatten (kids n))"
    by (rule flatten_unfold)
  from inv show "length (tree_flatten n) = Suc (entries_below n)" by (rule flatten_count)
  assume "kids n = []"
  with u show "tree_flatten n = [path n]" by simp
next
  assume a: "listings_valid w \<and> FS_tree fuel w p = Some (Inr t)"
  then have s: "path t = p" "resolved_inv t" "reflects w t" by (auto dest: FS_tree_sound)
  then show inv: "node_inv t" by (simp add: resolved_node_inv)
  from s show "reflects w t" "path t = p" by simp_all
  from inv show "length (tree_flatten t) = Suc (entries_below t)" by (rule flatten_count)
  from a show "distinct (tree_flatten t)" by (blast intro: resolved_flatten_distinct)
qed

text \<open>Witness for C1: the scenario; its tree has two entries below the root and
  \<open>flatten\<close> yields three paths, all different.\<close>

theorem flatten_preorder_complete_witness:
  "node_inv scenario_tree \<and> listings_valid scenario_world \<and>
   FS_tree (Suc 0) scenario_world ''/a'' = Some (Inr scenario_tree) \<and>
   tree_flatten scenario_tree = [''/a'', ''/a/x.txt'', ''/a/y''] \<and>
   entries_below scenario_tree = 2 \<and>
   length (tree_flatten scenario_tree) = 3 \<and>
   distinct (tree_flatten scenario_tree)"
proof -
  have inv: "node_inv scenario_tree" by (simp add: scenario_tree_def)
  have lv: "listings_valid scenario_world"
    by (auto simp: listings_valid_def scenario_world_def entry_name_def slash_def
        split: if_splits)
  have tr: "FS_tree (Suc 0) scenario_world ''/a'' = Some (Inr scenario_tree)" by code_simp
  have fl: "tree_flatten scenario_tree = [''/a'', ''/a/x.txt'', ''/a/y'']"
    by (simp add: scenario_tree_def)
  have eb: "entries_below scenario_tree = 2" by (simp add: scenario_tree_def)
  from flatten_preorder_complete [of scenario_tree scenario_world "Suc 0" "''/a''" scenario_tree]
    inv lv tr
  have "length (tree_flatten scenario_tree) = Suc (entries_below scenario_tree) \<and>
      distinct (tree_flatten scenario_tree)" by blast
  with inv lv tr fl eb show ?thesis by simp
qed


section \<open>Claims about the tree queries\<close>

text \<open>
  C5.  On every fully built tree, \<open>FS.tree.directories\<close> yields nothing for a node
  that is not a directory, nothing for a directory without children, and otherwise the
  node's own path followed by the results for its children in order.  Hence every path
  it yields is the path of a directory node of the tree that has children, and every
  path yielded by \<open>FS.tree.files\<close> is the path of a node of the tree that is not a
  directory and has no children.
\<close>

theorem directories_and_files_yield:
  assumes "node_inv n"
  shows "(\<not> isDirectory n \<longrightarrow> tree_directories n = []) \<and>
         (isDirectory n \<and> kids n = [] \<longrightarrow> tree_directories n = []) \<and>
         (isDirectory n \<and> kids n \<noteq> [] \<longrightarrow>
            tree_directories n = path n # concat (map tree_directories (kids n))) \<and>
         (\<forall>p \<in> set (tree_directories n).
            \<exists>m \<in> set (nodes n). path m = p \<and> isDirectory m \<and> kids m \<noteq> []) \<and>
         (\<forall>p \<in> set (tree_files n).
            \<exists>m \<in> set (nodes n). path m = p \<and> \<not> isDirectory m \<and> children m = None)"
proof -
  have "\<not> isDirectory n \<longrightarrow> tree_directories n = []"
    by (cases n rule: kids.cases) simp_all
  moreover have "isDirectory n \<and> kids n = [] \<longrightarrow> tree_directories n = []"
    by (cases n rule: kids.cases) simp_all
  moreover have "isDirectory n \<and> kids n \<noteq> [] \<longrightarrow>
      tree_directories n = path n # concat (map tree_directories (kids n))"
    by (cases n rule: kids.cases) simp_all
  moreover have "\<forall>p \<in> set (tree_directories n).
      \<exists>m \<in> set (nodes n). path m = p \<and> isDirectory m \<and> kids m \<noteq> []"
    by (blast dest: directories_sound)
  moreover have "\<forall>p \<in> set (tree_files n).
      \<exists>m \<in> set (nodes n). path m = p \<and> \<not> isDirectory m \<and> children m = None"
    using assms by (blast dest: files_sound)
  ultimately show ?thesis by blast
qed

text \<open>Witness for C5: the tree of the scenario, whose root is a directory with two
  children.\<close>

theorem directories_and_files_yield_witness:
  "node_inv scenario_tree \<and> isDirectory scenario_tree \<and> kids scenario_tree \<noteq> [] \<and>
   tree_directories scenario_tree =
     path scenario_tree # concat (map tree_directories (kids scenario_tree)) \<and>
   tree_files scenario_tree = [''/a/x.txt'']"
proof -
  have inv: "node_inv scenario_tree" by (simp add: scenario_tree_def)
  have d: "isDirectory scenario_tree \<and> kids scenario_tree \<noteq> []"
    by (simp add: scenario_tree_def)
  from directories_and_files_yield [OF inv] d
  have "tree_directories scenario_tree =
     path scenario_tree # concat (map tree_directories (kids scenario_tree))"
    by blast
  moreover have "tree_files scenario_tree = [''/a/x.txt'']" by (simp add: scenario_tree_def)
  ultimately show ?thesis using inv d by blast
qed

text \<open>
  C6, as stated: in the scenario, \<open>FS.tree.directories\<close> applied to the resolved root
  yields the empty sequence.  This fails: the resolved root is a directory with
  children, so its own path is yielded.
\<close>

theorem directories_scenario_counterexample:
  "FS_tree (Suc 0) scenario_world ''/a'' = Some (Inr scenario_tree) \<and>
   tree_directories scenario_tree \<noteq> []"
proof
  show "FS_tree (Suc 0) scenario_world ''/a'' = Some (Inr scenario_tree)" by code_simp
  show "tree_directories scenario_tree \<noteq> []" by (simp add: scenario_tree_def)
qed

text \<open>
  C6, amended.  In the scenario, \<open>FS.tree.directories\<close> applied to the resolved root
  yields exactly the path of the root: the root \<open>/a\<close> is included, being a directory
  with children, and the empty directory \<open>/a/y\<close> is excluded.
\<close>

theorem directories_scenario:
  "FS_tree (Suc 0) scenario_world ''/a'' = Some (Inr scenario_tree) \<and>
   tree_directories scenario_tree = [''/a'']"
proof
  show "FS_tree (Suc 0) scenario_world ''/a'' = Some (Inr scenario_tree)" by code_simp
  show "tree_directories scenario_tree = [''/a'']" by (simp add: scenario_tree_def)
qed


section \<open>Claims about the resolver\<close>

text \<open>
  C2.  If a Storage operation fails at any level during the resolution of \<open>p\<close>, then
  \<open>FS.tree\<close> never delivers a tree for \<open>p\<close>, and it rejects, with the error of a failing
  operation, as soon as the recursion has reached the depth of a failure.  In
  particular, when the stat of an entry of the directory \<open>p\<close> fails, \<open>FS.tree\<close> rejects
  with the error of the failing stat of an entry, whatever the recursion does, and
  that error is \<open>NotAccessible\<close> with the absolute path of the entry when the entry is
  not accessible.
\<close>

theorem resolve_fails_fast:
  "(resolution_fails w p e \<longrightarrow>
      (\<forall>fuel t. FS_tree fuel w p \<noteq> Some (Inr t)) \<and>
      (\<exists>k. \<forall>fuel \<ge> k. \<exists>e'. resolution_fails w p e' \<and> FS_tree fuel w p = Some (Inl e'))) \<and>
   (FS_stat w p = Inr st \<and> stat_isDirectory st \<and> FS_ls w p = Inr cs \<and> c \<in> set cs \<and>
    FS_stat w c = Inl ec \<longrightarrow>
      (\<exists>c' \<in> set cs. \<exists>e'. FS_stat w c' = Inl e' \<and>
          (\<not> FS_isAccessible w (Path_absolute (process_cwd w) c') \<longrightarrow>
             e' = NotAccessible (Path_absolute (process_cwd w) c')) \<and>
          (\<forall>fuel. FS_tree fuel w p = Some (Inl e'))))"
proof (intro conjI impI)
  assume f: "resolution_fails w p e"
  show "\<forall>fuel t. FS_tree fuel w p \<noteq> Some (Inr t)"
  proof (intro allI notI)
    fix fuel t
    assume "FS_tree fuel w p = Some (Inr t)"
    then have "path t = p" "reflects w t" by (auto dest: FS_tree_sound)
    with f show False by (blast dest: reflects_not_fails)
  qed
  from fails_found [OF f] obtain k where
    k: "\<And>fuel. fuel \<ge> k \<Longrightarrow> \<exists>e'. FS_tree fuel w p = Some (Inl e')" by blast
  have "\<exists>e'. resolution_fails w p e' \<and> FS_tree fuel w p = Some (Inl e')" if "fuel \<ge> k" for fuel
  proof -
    from k [OF that] obtain e' where "FS_tree fuel w p = Some (Inl e')" by blast
    then show ?thesis by (blast dest: FS_tree_error)
  qed
  then show "\<exists>k. \<forall>fuel \<ge> k. \<exists>e'. resolution_fails w p e' \<and> FS_tree fuel w p = Some (Inl e')"
    by blast
next
  assume a: "FS_stat w p = Inr st \<and> stat_isDirectory st \<and> FS_ls w p = Inr cs \<and> c \<in> set cs \<and>
    FS_stat w c = Inl ec"
  then have "Some (Inl ec) \<in> set (map (\<lambda>c. Some (FS_stat w c)) cs)" by force
  then obtain e' where r: "Promise_all (map (\<lambda>c. Some (FS_stat w c)) cs) = Some (Inl e')"
    by (blast dest: Promise_all_must_reject)
  then obtain c' where c': "c' \<in> set cs" "FS_stat w c' = Inl e'"
    by (blast dest: stats_reject)
  have acc: "\<not> FS_isAccessible w (Path_absolute (process_cwd w) c') \<longrightarrow>
      e' = NotAccessible (Path_absolute (process_cwd w) c')"
    using c'(2) by (auto simp: FS_stat_def Let_def)
  have "resolve_level w recurse (Node p (stat_isDirectory st) None) = Some (Inl e')" for recurse
    using a r by (auto simp: resolve_level_def)
  then have "tree_resolveChildren fuel w (Node p (stat_isDirectory st) None) = Some (Inl e')" for fuel
    by (cases fuel) simp_all
  with a have "\<forall>fuel. FS_tree fuel w p = Some (Inl e')" by (simp add: FS_tree_def)
  with c' acc show "\<exists>c' \<in> set cs. \<exists>e'. FS_stat w c' = Inl e' \<and>
          (\<not> FS_isAccessible w (Path_absolute (process_cwd w) c') \<longrightarrow>
             e' = NotAccessible (Path_absolute (process_cwd w) c')) \<and>
          (\<forall>fuel. FS_tree fuel w p = Some (Inl e'))"
    by blast
qed

text \<open>Witness for C2: in the broken scenario the stat of the entry \<open>/a/y\<close> fails; the
  resolution of \<open>/a\<close> delivers no tree and rejects, at every depth of recursion, with
  the error that names \<open>/a/y\<close>.\<close>

theorem resolve_fails_fast_witness:
  "resolution_fails broken_world ''/a'' (NotAccessible ''/a/y'') \<and>
   FS_stat broken_world ''/a'' = Inr (Stats True False) \<and>
   FS_ls broken_world ''/a'' = Inr [''/a/x.txt'', ''/a/y''] \<and>
   FS_stat broken_world ''/a/y'' = Inl (NotAccessible ''/a/y'') \<and>
   (\<forall>fuel. FS_tree fuel broken_world ''/a'' \<noteq> Some (Inr scenario_tree)) \<and>
   (\<forall>fuel. FS_tree fuel broken_world ''/a'' = Some (Inl (NotAccessible ''/a/y'')))"
proof -
  have st: "FS_stat broken_world ''/a'' = Inr (Stats True False)" by code_simp
  have ls: "FS_ls broken_world ''/a'' = Inr [''/a/x.txt'', ''/a/y'']" by code_simp
  have cst: "FS_stat broken_world ''/a/y'' = Inl (NotAccessible ''/a/y'')" by code_simp
  have xst: "FS_stat broken_world ''/a/x.txt'' = Inr (Stats False True)" by code_simp
  have f: "resolution_fails broken_world ''/a'' (NotAccessible ''/a/y'')"
    by (rule child_fails [OF st _ ls _ stat_fails [OF cst]]) simp_all
  note inst = resolve_fails_fast [of broken_world "''/a''" "NotAccessible ''/a/y''"
      "Stats True False" "[''/a/x.txt'', ''/a/y'']" "''/a/y''" "NotAccessible ''/a/y''"]
  from inst f have no_tree: "\<forall>fuel. FS_tree fuel broken_world ''/a'' \<noteq> Some (Inr scenario_tree)"
    by blast
  from inst st ls cst obtain c' e' where c': "c' \<in> set [''/a/x.txt'', ''/a/y'']"
    and e': "FS_stat broken_world c' = Inl e'"
    and all: "\<forall>fuel. FS_tree fuel broken_world ''/a'' = Some (Inl e')"
    by auto
  from c' e' xst cst have "e' = NotAccessible ''/a/y''" by auto
  with all have "\<forall>fuel. FS_tree fuel broken_world ''/a'' = Some (Inl (NotAccessible ''/a/y''))"
    by simp
  with f st ls cst no_tree show ?thesis by blast
qed

text \<open>
  C9.  Every node of a tree delivered by \<open>FS.tree\<close> that is not a directory has no
  \<open>children\<close> property; a directory node whose listing is empty has no \<open>children\<close>
  property either, and the property is never an empty array.  For the three queries an
  absent \<open>children\<close> and an empty one give the same result.
\<close>

theorem resolved_tree_invariant:
  assumes "FS_tree fuel w p = Some (Inr t)" and "m \<in> set (nodes t)"
  shows "(\<not> isDirectory m \<longrightarrow> children m = None) \<and>
         (FS_ls w (path m) = Inr [] \<longrightarrow> children m = None) \<and>
         children m \<noteq> Some [] \<and>
         tree_flatten (Node q d None) = tree_flatten (Node q d (Some [])) \<and>
         tree_files (Node q d None) = tree_files (Node q d (Some [])) \<and>
         tree_directories (Node q d None) = tree_directories (Node q d (Some []))"
proof -
  from assms(1) have "resolved_inv t" "reflects w t" by (auto dest: FS_tree_sound)
  with assms(2) have m: "resolved_inv m" "reflects w m" by (auto dest: nodes_resolved)
  obtain r dm ks where mm: "m = Node r dm ks" by (cases m)
  have "\<not> isDirectory m \<longrightarrow> children m = None" using m mm by (cases ks) auto
  moreover have "children m \<noteq> Some []" using m mm by (cases ks) auto
  moreover have "FS_ls w (path m) = Inr [] \<longrightarrow> children m = None"
    using m mm by (cases ks) (auto split: if_splits)
  ultimately show ?thesis by simp
qed

text \<open>Witness for C9: the tree delivered in the scenario and its node for the empty
  directory \<open>/a/y\<close>.\<close>

theorem resolved_tree_invariant_witness:
  "FS_tree (Suc 0) scenario_world ''/a'' = Some (Inr scenario_tree) \<and>
   Node ''/a/y'' True None \<in> set (nodes scenario_tree) \<and>
   FS_ls scenario_world ''/a/y'' = Inr [] \<and>
   children (Node ''/a/y'' True None) = None \<and>
   tree_directories (Node ''/a/y'' True None) = tree_directories (Node ''/a/y'' True (Some []))"
proof -
  have tr: "FS_tree (Suc 0) scenario_world ''/a'' = Some (Inr scenario_tree)" by code_simp
  have m: "Node ''/a/y'' True None \<in> set (nodes scenario_tree)"
    by (simp add: scenario_tree_def)
  have ls: "FS_ls scenario_world ''/a/y'' = Inr []" by code_simp
  from resolved_tree_invariant [OF tr m, of "''/a/y''" True] ls
  show ?thesis using tr m by simp
qed


section \<open>Claims about the class Path\<close>

text \<open>
  C3, at the failing input.  \<open>/a\<close> is a direct child of the root \<open>/\<close>: it is the join of
  \<open>/\<close> with the segment \<open>a\<close>.  Yet \<open>inside\<close> answers false for it, whatever the working
  directory: the absolute form of the root ends with the separator already, and the
  code looks for it followed by one more.  (That no path is inside itself does hold.)
\<close>

theorem inside_misses_children_of_root:
  "Path_postfix ''/'' ''a'' = ''/a'' \<and> Path_inside cwd ''/a'' ''/'' = False \<and>
   Path_inside cwd p p = False"
proof (intro conjI)
  show "Path_postfix ''/'' ''a'' = ''/a''" by code_simp
  show "Path_inside cwd ''/a'' ''/'' = False"
    by (simp add: Path_inside_def absolute_ex1 absolute_ex2 slash_def backslash_def)
  show "Path_inside cwd p p = False"
    by (auto simp: Path_inside_def Let_def dest: prefix_length_le)
qed

text \<open>
  C4, at the failing input.  The absolute form \<open>/a\<close> is not a prefix of \<open>/x/a/b\<close>, yet
  \<open>relativeTo\<close> does not return \<open>/x/a/b\<close> unchanged: the pattern is not anchored, so
  its first match \<open>/a/\<close> inside the string is removed.
\<close>

theorem relativeTo_strips_inside:
  "\<not> prefix (Path_absolute cwd ''/a'') (Path_absolute cwd ''/x/a/b'') \<and>
   Path_relativeTo cwd ''/x/a/b'' ''/a'' = Some (Inr ''/xb'')"
proof
  show "\<not> prefix (Path_absolute cwd ''/a'') (Path_absolute cwd ''/x/a/b'')"
    by (simp add: absolute_ex1 absolute_ex3)
  show "Path_relativeTo cwd ''/x/a/b'' ''/a'' = Some (Inr ''/xb'')"
    by (simp add: Path_relativeTo_def absolute_ex1 absolute_ex3 regexp_ex1 replace_ex1
        del: String_replace.simps)
qed

text \<open>
  C7, at the failing inputs.  \<open>pop\<close> on the path \<open>a(b\<close> and \<open>relativeTo\<close> with the
  argument \<open>/a(\<close> throw the \<open>SyntaxError\<close> of \<open>new RegExp\<close>: the path is put into the
  pattern as it is, and its parenthesis opens a group that is never closed.
\<close>

theorem pop_and_relativeTo_throw:
  "Path_pop ''a(b'' = Some (Inl SyntaxError) \<and>
   Path_relativeTo cwd ''/a/b'' ''/a('' = Some (Inl SyntaxError)"
proof
  show "Path_pop ''a(b'' = Some (Inl SyntaxError)" by code_simp
  show "Path_relativeTo cwd ''/a/b'' ''/a('' = Some (Inl SyntaxError)"
    by (simp add: Path_relativeTo_def absolute_ex4 regexp_ex2)
qed

text \<open>
  C8, as stated: joining is associative for all triples of paths.  This fails for a
  middle path that is absolute: \<open>join(join(a, /..), a)\<close> is \<open>a\<close>, while
  \<open>join(a, join(/.., a))\<close> is \<open>a/a\<close>.
\<close>

theorem join_associative_counterexample:
  "Path_postfix (Path_postfix ''a'' ''/..'') ''a'' = ''a'' \<and>
   Path_postfix ''a'' (Path_postfix ''/..'' ''a'') = ''a/a'' \<and>
   npath_normalize (Path_postfix (Path_postfix ''a'' ''/..'') ''a'')
     \<noteq> npath_normalize (Path_postfix ''a'' (Path_postfix ''/..'' ''a''))"
  by code_simp

text \<open>
  C8, amended.  For every \<open>a\<close> and \<open>c\<close> and every middle path \<open>b\<close> that is not empty and
  does not start with a separator, \<open>join(join(a, b), c)\<close> equals \<open>join(a, join(b, c))\<close>,
  for the join of \<open>postfix\<close> and of \<open>append\<close>; both sides are in normalized form.
\<close>

theorem join_associative_relative_middle:
  assumes "b \<noteq> []" and "hd b \<noteq> slash"
  shows "Path_postfix (Path_postfix a b) c = Path_postfix a (Path_postfix b c) \<and>
         Path_append (Path_append a [b]) [c] = Path_append a [Path_append b [c]] \<and>
         npath_normalize (Path_postfix (Path_postfix a b) c) = Path_postfix (Path_postfix a b) c"
proof -
  have j: "npath_join [npath_join [a, b], c] = npath_join [a, npath_join [b, c]]"
    using assms by (rule join_assoc)
  have "npath_join [npath_join [a, b], c] \<noteq> []"
    by (simp add: join2 normalize_nonempty)
  have n: "npath_normalize (npath_join [x, y]) = npath_join [x, y]" for x y
    by (simp add: join2 normalize_idem) code_simp
  from j n show ?thesis by (simp add: Path_postfix_def Path_append_def)
qed

text \<open>Witness for C8: a middle path that climbs out of its left neighbour.\<close>

theorem join_associative_relative_middle_witness:
  "''../y'' \<noteq> [] \<and> hd ''../y'' \<noteq> slash \<and>
   Path_postfix (Path_postfix ''x'' ''../y'') ''..'' = ''.'' \<and>
   Path_postfix ''x'' (Path_postfix ''../y'' ''..'') = ''.''"
proof -
  have b: "''../y'' \<noteq> []" "hd ''../y'' \<noteq> slash" by (simp_all add: slash_def)
  have l: "Path_postfix (Path_postfix ''x'' ''../y'') ''..'' = ''.''" by code_simp
  from join_associative_relative_middle [OF b, of "''x''" "''..''"] l
  have "Path_postfix ''x'' (Path_postfix ''../y'' ''..'') = ''.''" by simp
  with b l show ?thesis by simp
qed


section \<open>Claims about aliasing\<close>

text \<open>
  C10.  Every \<open>Path\<close> in the sequence returned by \<open>FS.tree.flatten\<close>, \<open>FS.tree.files\<close>
  or \<open>FS.tree.directories\<close> is a new object, distinct from the others and from every
  \<open>Path\<close> of the graph, holding at return time the string of the corresponding node's
  path; and after any sequence of in-place calls (\<open>append\<close>, \<open>prepend\<close>, \<open>pop\<close>,
  \<open>replace\<close>, \<open>prefix\<close>, \<open>postfix\<close>) on returned objects, every \<open>Path\<close> of the graph
  holds the string it held before the query.
\<close>

theorem returned_paths_are_fresh_clones:
  assumes "in_store n h"
    and "(query_st, query) \<in> {(tree_flatten_st, tree_flatten), (tree_files_st, tree_files),
           (tree_directories_st, tree_directories)}"
    and "query_st n h = (rs, h1)"
    and "snd ` set ops \<subseteq> set rs"
    and "apply_ops ops h1 = Some h2"
  shows "map (content h1) rs = query (map_tnode (content h1) n) \<and>
         distinct rs \<and> set rs \<inter> set_tnode n = {} \<and>
         (\<forall>q \<in> set_tnode n. content h1 q = content h q \<and> content h2 q = content h q)"
proof -
  from assms(1,2) have "refines query_st query n h"
    by (auto intro: flatten_refines files_refines directories_refines)
  with assms(3) have rs: "rs = [allocated h ..< allocated h1]"
    and m: "map (content h1) rs = query (map_tnode (content h) n)"
    and ag: "\<forall>r < allocated h. content h1 r = content h r"
    and le: "allocated h \<le> allocated h1"
    by (auto simp: refines_def)
  from assms(1) have lt: "\<forall>q \<in> set_tnode n. q < allocated h" by (simp add: in_store_def)
  have same: "map_tnode (content h1) n = map_tnode (content h) n"
    using lt ag by (intro map_tnode_agree) auto
  have disj: "set rs \<inter> set_tnode n = {}" using rs lt by fastforce
  have fr: "content h2 q = content h q" if "q \<in> set_tnode n" for q
  proof -
    from that lt have q: "q < allocated h" by blast
    with rs have "q \<notin> set rs" by simp
    with assms(4) have "q \<notin> snd ` set ops" by blast
    moreover from q le have "q < allocated h1" by simp
    ultimately have "content h2 q = content h1 q" using assms(5) by (intro apply_ops_frame)
    with ag q show ?thesis by simp
  qed
  show ?thesis using m same rs disj fr ag lt by auto
qed

text \<open>Witness for C10: the clones of a graph of two nodes, one appended to and one
  popped; the two paths of the graph are as before.\<close>

theorem returned_paths_are_fresh_clones_witness:
  "in_store example_pnode example_store \<and>
   fst (tree_flatten_st example_pnode example_store) = [2, 3] \<and>
   snd ` set example_ops \<subseteq> set [2, 3] \<and>
   map_option (\<lambda>h. map (content h) [0, 1, 2, 3])
     (apply_ops example_ops (snd (tree_flatten_st example_pnode example_store)))
     = Some [''/a'', ''/a/x.txt'', ''/a/z'', ''/a''] \<and>
   content (the (apply_ops example_ops (snd (tree_flatten_st example_pnode example_store)))) 0
     = content example_store 0"
proof -
  have w1: "in_store example_pnode example_store"
    by (simp add: in_store_def example_pnode_def example_store_def)
  have w2: "fst (tree_flatten_st example_pnode example_store) = [2, 3]"
    by code_simp
  have w3: "map_option (\<lambda>h. map (content h) [0, 1, 2, 3])
     (apply_ops example_ops (snd (tree_flatten_st example_pnode example_store)))
     = Some [''/a'', ''/a/x.txt'', ''/a/z'', ''/a'']"
    by code_simp
  have w4: "snd ` set example_ops \<subseteq> set [2, 3]" by (simp add: example_ops_def)
  obtain h1 where q: "tree_flatten_st example_pnode example_store = ([2, 3], h1)"
    using w2 by (cases "tree_flatten_st example_pnode example_store") simp
  with w3 obtain h2 where h2: "apply_ops example_ops h1 = Some h2" by auto
  have "(tree_flatten_st, tree_flatten) \<in> {(tree_flatten_st, tree_flatten),
      (tree_files_st, tree_files), (tree_directories_st, tree_directories)}" by simp
  from returned_paths_are_fresh_clones [OF w1 this q w4 h2]
  have "content h2 0 = content example_store 0" by (simp add: example_pnode_def)
  with q h2 w1 w2 w3 w4 show ?thesis by simp
qed

end
